theory Spec2Isabelle
  imports Complex_Main "HOL-Library.AList"
begin

text \<open>
  A shallow embedding of the retail backend's cache service (\<^verbatim>\<open>services/redisService.js\<close>),
  its cart routes and its order routes. Every route is a function from the state of the
  three stores to a response and the state after the request. Numbers are exact: a
  quantity is an \<^typ>\<open>int\<close>, a price a \<^typ>\<open>rat\<close>; the rounding of JavaScript's
  doubles is not part of the model.
\<close>

section \<open>Decimal integers\<close>

text \<open>
  The key-value backend keeps every payload as text; a counter is the decimal text of an
  integer. JavaScript's \<^verbatim>\<open>JSON.stringify\<close> prints an integral number the same way.
\<close>

definition digit_char :: "nat \<Rightarrow> char" where
  "digit_char d = char_of (48 + d)"

definition is_digit :: "char \<Rightarrow> bool" where
  "is_digit c \<longleftrightarrow> 48 \<le> (of_char c :: nat) \<and> (of_char c :: nat) \<le> 57"

definition digit_val :: "char \<Rightarrow> nat" where
  "digit_val c = of_char c - 48"

function show_nat :: "nat \<Rightarrow> string" where
  "show_nat n = (if n < 10 then [digit_char n] else show_nat (n div 10) @ [digit_char (n mod 10)])"
  by pat_completeness auto
termination
  by (relation "measure id") auto

declare show_nat.simps [simp del]

definition show_int :: "int \<Rightarrow> string" where
  "show_int i = (if i < 0 then CHR ''-'' # show_nat (nat (- i)) else show_nat (nat i))"

definition digits_val :: "string \<Rightarrow> nat" where
  "digits_val ds = foldl (\<lambda>a c. 10 * a + digit_val c) 0 ds"

definition parse_nat :: "string \<Rightarrow> nat option" where
  "parse_nat ds =
     (if ds \<noteq> [] \<and> list_all is_digit ds \<and> (hd ds \<noteq> CHR ''0'' \<or> length ds = 1)
      then Some (digits_val ds) else None)"

text \<open>
  The integer syntax the backend's increment accepts: an optional minus sign and a
  digit string without a leading zero; \<^verbatim>\<open>-0\<close> is refused.
\<close>

definition parse_int :: "string \<Rightarrow> int option" where
  "parse_int s =
     (case s of
        [] \<Rightarrow> None
      | c # ds \<Rightarrow>
          if c = CHR ''-''
          then (case parse_nat ds of
                  None \<Rightarrow> None
                | Some n \<Rightarrow> if n = 0 then None else Some (- int n))
          else map_option int (parse_nat s))"

section \<open>JavaScript values and JSON\<close>

text \<open>
  The values handed to \<^verbatim>\<open>JSON.stringify\<close>: \<^verbatim>\<open>null\<close>, booleans, numbers, strings,
  arrays and plain objects (their properties in enumeration order). A finite number is an
  integer here; \<^verbatim>\<open>NaN\<close>, \<^verbatim>\<open>Infinity\<close> and \<^verbatim>\<open>-Infinity\<close> are the numbers that are
  not finite. A string is a list of code units below 256.
\<close>

datatype jsvalue =
    JNull
  | JBool bool
  | JNumber int
  | JNaN
  | JInfinity
  | JNegInfinity
  | JString string
  | JArray "jsvalue list"
  | JObject "(string \<times> jsvalue) list"

text \<open>
  \<^verbatim>\<open>JSON.stringify\<close> (ECMAScript, SerializeJSONProperty): a string is quoted with the
  two-character escapes for backspace, tab, line feed, form feed, carriage return, the
  quote and the backslash, and a four-digit hexadecimal escape for the other control
  characters; a finite number prints as its decimal text and a number that is not finite
  as \<^verbatim>\<open>null\<close>; arrays and objects print without white space.
\<close>

definition hex_char :: "nat \<Rightarrow> char" where
  "hex_char d = (if d < 10 then char_of (48 + d) else char_of (87 + d))"

definition quote_char :: "char \<Rightarrow> string" where
  "quote_char c =
     (if c = CHR 0x08 then [CHR 0x5C, CHR ''b'']
      else if c = CHR 0x09 then [CHR 0x5C, CHR ''t'']
      else if c = CHR 0x0A then [CHR 0x5C, CHR ''n'']
      else if c = CHR 0x0C then [CHR 0x5C, CHR ''f'']
      else if c = CHR 0x0D then [CHR 0x5C, CHR ''r'']
      else if c = CHR 0x22 then [CHR 0x5C, CHR 0x22]
      else if c = CHR 0x5C then [CHR 0x5C, CHR 0x5C]
      else if (of_char c :: nat) < 32
        then [CHR 0x5C, CHR ''u'', CHR ''0'', CHR ''0'',
              hex_char (of_char c div 16), hex_char (of_char c mod 16)]
      else [c])"

definition QuoteJSONString :: "string \<Rightarrow> string" where
  "QuoteJSONString s = CHR 0x22 # concat (map quote_char s) @ [CHR 0x22]"

fun commas :: "string list \<Rightarrow> string" where
  "commas [] = []"
| "commas [x] = x"
| "commas (x # y # ys) = x @ CHR '','' # commas (y # ys)"

primrec JSON_stringify :: "jsvalue \<Rightarrow> string" where
  "JSON_stringify JNull = ''null''"
| "JSON_stringify (JBool b) = (if b then ''true'' else ''false'')"
| "JSON_stringify (JNumber n) = show_int n"
| "JSON_stringify JNaN = ''null''"
| "JSON_stringify JInfinity = ''null''"
| "JSON_stringify JNegInfinity = ''null''"
| "JSON_stringify (JString s) = QuoteJSONString s"
| "JSON_stringify (JArray vs) = CHR ''['' # commas (map JSON_stringify vs) @ [CHR '']'']"
| "JSON_stringify (JObject kvs) =
     CHR ''{'' # commas (map (\<lambda>(k, t). QuoteJSONString k @ CHR '':'' # t)
                           (map (map_prod id JSON_stringify) kvs)) @ [CHR ''}'']"

text \<open>
  \<^verbatim>\<open>JSON.parse\<close>: a recursive-descent reader of the JSON grammar, white space allowed
  between tokens. The fuel bounds the recursion: a value costs one unit and every element
  of an array or object one more; \<open>JSON_parse\<close> starts with twice the length of the text,
  more than any text needs (\<open>fuel_le_length\<close>, \<open>JSON_parse_fuel_enough\<close>). Outside
  the model, and refused: a number with a fraction or an exponent (not an integer in
  general) and a hexadecimal escape of a code unit from 256 on. A repeated key
  overwrites the earlier value in place, as defining a property does.
\<close>

definition is_ws :: "char \<Rightarrow> bool" where
  "is_ws c \<longleftrightarrow> c = CHR 0x20 \<or> c = CHR 0x09 \<or> c = CHR 0x0A \<or> c = CHR 0x0D"

definition skip_ws :: "string \<Rightarrow> string" where
  "skip_ws s = dropWhile is_ws s"

definition hex_val :: "char \<Rightarrow> nat option" where
  "hex_val c =
     (let n = (of_char c :: nat)
      in if 48 \<le> n \<and> n \<le> 57 then Some (n - 48)
         else if 97 \<le> n \<and> n \<le> 102 then Some (n - 87)
         else if 65 \<le> n \<and> n \<le> 70 then Some (n - 55)
         else None)"

definition unescape :: "char \<Rightarrow> char option" where
  "unescape e =
     (if e = CHR 0x22 then Some (CHR 0x22)
      else if e = CHR 0x5C then Some (CHR 0x5C)
      else if e = CHR ''/'' then Some (CHR ''/'')
      else if e = CHR ''b'' then Some (CHR 0x08)
      else if e = CHR ''f'' then Some (CHR 0x0C)
      else if e = CHR ''n'' then Some (CHR 0x0A)
      else if e = CHR ''r'' then Some (CHR 0x0D)
      else if e = CHR ''t'' then Some (CHR 0x09)
      else None)"

definition code_unit :: "char \<Rightarrow> char \<Rightarrow> char \<Rightarrow> char \<Rightarrow> char option" where
  "code_unit h1 h2 h3 h4 =
     (case (hex_val h1, hex_val h2, hex_val h3, hex_val h4) of
        (Some a, Some b, Some c, Some d) \<Rightarrow>
          if a = 0 \<and> b = 0 then Some (char_of (16 * c + d)) else None
      | _ \<Rightarrow> None)"

definition cons_char :: "char \<Rightarrow> (string \<times> string) option \<Rightarrow> (string \<times> string) option" where
  "cons_char c r = map_option (\<lambda>(s, rest). (c # s, rest)) r"

fun parse_chars :: "string \<Rightarrow> (string \<times> string) option" where
  "parse_chars [] = None"
| "parse_chars (c # cs) =
     (if c = CHR 0x22 then Some ([], cs)
      else if c = CHR 0x5C then
        (case cs of
           [] \<Rightarrow> None
         | e # cs1 \<Rightarrow>
             if e = CHR ''u'' then
               (case cs1 of
                  h1 # h2 # h3 # h4 # cs2 \<Rightarrow>
                    (case code_unit h1 h2 h3 h4 of
                       None \<Rightarrow> None
                     | Some u \<Rightarrow> cons_char u (parse_chars cs2))
                | _ \<Rightarrow> None)
             else
               (case unescape e of
                  None \<Rightarrow> None
                | Some u \<Rightarrow> cons_char u (parse_chars cs1)))
      else if (of_char c :: nat) < 32 then None
      else cons_char c (parse_chars cs))"

definition parse_literal :: "string \<Rightarrow> jsvalue \<Rightarrow> string \<Rightarrow> (jsvalue \<times> string) option" where
  "parse_literal w v s =
     (if take (length w) s = w then Some (v, drop (length w) s) else None)"

definition parse_number :: "string \<Rightarrow> (jsvalue \<times> string) option" where
  "parse_number s =
     (let neg = (s \<noteq> [] \<and> hd s = CHR ''-'');
          body = (if neg then tl s else s);
          ds = takeWhile is_digit body;
          rest = dropWhile is_digit body
      in if ds = [] \<or> (hd ds = CHR ''0'' \<and> length ds \<noteq> 1) then None
         else if rest \<noteq> [] \<and> (hd rest = CHR ''.'' \<or> hd rest = CHR ''e'' \<or> hd rest = CHR ''E'')
           then None
         else Some (JNumber (if neg then - int (digits_val ds) else int (digits_val ds)), rest))"

definition define_property :: "(string \<times> jsvalue) list \<Rightarrow> string \<times> jsvalue \<Rightarrow> (string \<times> jsvalue) list" where
  "define_property obj kv =
     (if fst kv \<in> fst ` set obj
      then map (\<lambda>p. if fst p = fst kv then kv else p) obj
      else obj @ [kv])"

fun parse_value :: "nat \<Rightarrow> string \<Rightarrow> (jsvalue \<times> string) option"
  and parse_elements :: "nat \<Rightarrow> string \<Rightarrow> (jsvalue list \<times> string) option"
  and parse_members :: "nat \<Rightarrow> string \<Rightarrow> ((string \<times> jsvalue) list \<times> string) option"
where
  "parse_value 0 s = None"
| "parse_value (Suc f) s =
     (case skip_ws s of
        [] \<Rightarrow> None
      | c # cs \<Rightarrow>
          if c = CHR ''{'' then
            (case skip_ws cs of
               [] \<Rightarrow> None
             | d # ds \<Rightarrow>
                 if d = CHR ''}'' then Some (JObject [], ds)
                 else map_option (\<lambda>(kvs, rest). (JObject (foldl define_property [] kvs), rest))
                        (parse_members f (d # ds)))
          else if c = CHR ''['' then
            (case skip_ws cs of
               [] \<Rightarrow> None
             | d # ds \<Rightarrow>
                 if d = CHR '']'' then Some (JArray [], ds)
                 else map_option (\<lambda>(vs, rest). (JArray vs, rest)) (parse_elements f (d # ds)))
          else if c = CHR 0x22 then
            map_option (\<lambda>(str, rest). (JString str, rest)) (parse_chars cs)
          else if c = CHR ''n'' then parse_literal ''null'' JNull (c # cs)
          else if c = CHR ''t'' then parse_literal ''true'' (JBool True) (c # cs)
          else if c = CHR ''f'' then parse_literal ''false'' (JBool False) (c # cs)
          else parse_number (c # cs))"
| "parse_elements 0 s = None"
| "parse_elements (Suc f) s =
     (case parse_value f s of
        None \<Rightarrow> None
      | Some (v, rest) \<Rightarrow>
          (case skip_ws rest of
             [] \<Rightarrow> None
           | c # cs \<Rightarrow>
               if c = CHR '','' then
                 map_option (\<lambda>(vs, rest'). (v # vs, rest')) (parse_elements f cs)
               else if c = CHR '']'' then Some ([v], cs)
               else None))"
| "parse_members 0 s = None"
| "parse_members (Suc f) s =
     (case skip_ws s of
        [] \<Rightarrow> None
      | q # cs \<Rightarrow>
          if q \<noteq> CHR 0x22 then None
          else
            (case parse_chars cs of
               None \<Rightarrow> None
             | Some (k, rest) \<Rightarrow>
                 (case skip_ws rest of
                    [] \<Rightarrow> None
                  | c # rest1 \<Rightarrow>
                      if c \<noteq> CHR '':'' then None
                      else
                        (case parse_value f rest1 of
                           None \<Rightarrow> None
                         | Some (v, rest2) \<Rightarrow>
                             (case skip_ws rest2 of
                                [] \<Rightarrow> None
                              | c2 # rest3 \<Rightarrow>
                                  if c2 = CHR '','' then
                                    map_option (\<lambda>(kvs, rest4). ((k, v) # kvs, rest4))
                                      (parse_members f rest3)
                                  else if c2 = CHR ''}'' then Some ([(k, v)], rest3)
                                  else None)))))"

definition JSON_parse :: "string \<Rightarrow> jsvalue option" where
  "JSON_parse s =
     (case parse_value (2 * length s + 2) s of
        None \<Rightarrow> None
      | Some (v, rest) \<Rightarrow> if skip_ws rest = [] then Some v else None)"

section \<open>The key-value backend\<close>

datatype link = NoClient | Unreachable | Ready

datatype redis_error = ConnectionError | NotAnInteger

record entry =
  payload :: string
  deadline :: "int option"

record redis =
  link :: link
  clock :: int
  keyspace :: "string \<Rightarrow> entry option"

text \<open>
  Modelled from the spec: the backend behind \<^verbatim>\<open>getRedisClient()\<close> is the \<^verbatim>\<open>redis\<close>
  package and its server, which are not part of the repository. An entry is a payload with
  an optional expiry; it "expires automatically at ttlSeconds after last write" and "a read
  after expiry returns absent, indistinguishable from never-written". Time is the backend's
  clock in seconds; \<open>tick d\<close> lets \<open>d\<close> seconds pass and drops what has expired.
  Every command of an unreachable backend rejects.
\<close>

definition expired :: "int \<Rightarrow> entry \<Rightarrow> bool" where
  "expired t e = (case deadline e of None \<Rightarrow> False | Some d \<Rightarrow> d \<le> t)"

definition tick :: "int \<Rightarrow> redis \<Rightarrow> redis" where
  "tick d r =
     r\<lparr>clock := clock r + d,
       keyspace := (\<lambda>k. case keyspace r k of
                           None \<Rightarrow> None
                         | Some e \<Rightarrow> if expired (clock r + d) e then None else Some e)\<rparr>"

definition store :: "redis \<Rightarrow> string \<Rightarrow> entry option \<Rightarrow> redis" where
  "store r k e = r\<lparr>keyspace := (keyspace r)(k := e)\<rparr>"

text \<open>An expiry that is not in the future leaves the key absent at once.\<close>

definition expiring :: "redis \<Rightarrow> string \<Rightarrow> int \<Rightarrow> entry option" where
  "expiring r v ttl =
     (if ttl \<le> 0 then None else Some \<lparr>payload = v, deadline = Some (clock r + ttl)\<rparr>)"

definition client_setEx :: "redis \<Rightarrow> string \<Rightarrow> int \<Rightarrow> string \<Rightarrow> redis_error + redis" where
  "client_setEx r k ttl v =
     (if link r \<noteq> Ready then Inl ConnectionError
      else Inr (store r k (expiring r v ttl)))"

definition client_get :: "redis \<Rightarrow> string \<Rightarrow> redis_error + string option" where
  "client_get r k =
     (if link r \<noteq> Ready then Inl ConnectionError
      else Inr (map_option payload (keyspace r k)))"

definition client_del :: "redis \<Rightarrow> string \<Rightarrow> redis_error + redis" where
  "client_del r k =
     (if link r \<noteq> Ready then Inl ConnectionError
      else Inr (store r k None))"

text \<open>
  Modelled from the spec: \<^verbatim>\<open>increment(key) -> integer\<close> is "atomic, creates at 0 then
  increments": one step of the model. A new counter has no expiry, an existing one keeps
  its expiry. A payload that is not an integer makes the command reject.
\<close>

definition client_incr :: "redis \<Rightarrow> string \<Rightarrow> redis_error + (int \<times> redis)" where
  "client_incr r k =
     (if link r \<noteq> Ready then Inl ConnectionError
      else case keyspace r k of
             None \<Rightarrow> Inr (1, store r k (Some \<lparr>payload = show_int 1, deadline = None\<rparr>))
           | Some e \<Rightarrow>
               (case parse_int (payload e) of
                  None \<Rightarrow> Inl NotAnInteger
                | Some n \<Rightarrow> Inr (n + 1, store r k (Some (e\<lparr>payload := show_int (n + 1)\<rparr>)))))"

definition client_expire :: "redis \<Rightarrow> string \<Rightarrow> int \<Rightarrow> redis_error + redis" where
  "client_expire r k ttl =
     (if link r \<noteq> Ready then Inl ConnectionError
      else case keyspace r k of
             None \<Rightarrow> Inr r
           | Some e \<Rightarrow> Inr (store r k (expiring r (payload e) ttl)))"

text \<open>What a counter key holds, read as the increment reads it, and when it expires.\<close>

definition counter_value :: "redis \<Rightarrow> string \<Rightarrow> int option" where
  "counter_value r k = (case keyspace r k of None \<Rightarrow> Some 0 | Some e \<Rightarrow> parse_int (payload e))"

definition expiry :: "redis \<Rightarrow> string \<Rightarrow> int option" where
  "expiry r k = (case keyspace r k of None \<Rightarrow> None | Some e \<Rightarrow> deadline e)"

section \<open>RedisService\<close>

text \<open>
  \<^verbatim>\<open>getClient()\<close> yields no client before the connection is made; every method returns
  its fallback then, and also when a command rejects (the \<^verbatim>\<open>catch\<close> branch).
\<close>

definition getClient :: "redis \<Rightarrow> redis option" where
  "getClient r = (if link r = NoClient then None else Some r)"

text \<open>
  \<^verbatim>\<open>set(key, value, expireInSeconds)\<close> serializes the value and writes it with its
  expiry; \<^verbatim>\<open>get(key)\<close> parses what it reads. An absent key, an empty payload, a text
  that does not parse and an unreachable backend all give \<^verbatim>\<open>null\<close>.
\<close>

definition set_cache :: "redis \<Rightarrow> string \<Rightarrow> jsvalue \<Rightarrow> int \<Rightarrow> bool \<times> redis" where
  "set_cache r key val expireInSeconds =
     (case getClient r of
        None \<Rightarrow> (False, r)
      | Some client \<Rightarrow>
          (let serializedValue = JSON_stringify val
           in case client_setEx client key expireInSeconds serializedValue of
                Inl _ \<Rightarrow> (False, r)
              | Inr r' \<Rightarrow> (True, r')))"

definition get :: "redis \<Rightarrow> string \<Rightarrow> jsvalue" where
  "get r key =
     (case getClient r of
        None \<Rightarrow> JNull
      | Some client \<Rightarrow>
          (case client_get client key of
             Inl _ \<Rightarrow> JNull
           | Inr None \<Rightarrow> JNull
           | Inr (Some val) \<Rightarrow>
               if val = [] then JNull
               else (case JSON_parse val of None \<Rightarrow> JNull | Some v \<Rightarrow> v)))"

definition del :: "redis \<Rightarrow> string \<Rightarrow> bool \<times> redis" where
  "del r key =
     (case getClient r of
        None \<Rightarrow> (False, r)
      | Some client \<Rightarrow>
          (case client_del client key of
             Inl _ \<Rightarrow> (False, r)
           | Inr r' \<Rightarrow> (True, r')))"

text \<open>The cart of a user lives under \<^verbatim>\<open>cart:{userId}\<close> for 24 hours.\<close>

definition setCart :: "redis \<Rightarrow> string \<Rightarrow> jsvalue \<Rightarrow> bool \<times> redis" where
  "setCart r userId cartData = set_cache r (''cart:'' @ userId) cartData 86400"

definition getCart :: "redis \<Rightarrow> string \<Rightarrow> jsvalue" where
  "getCart r userId = get r (''cart:'' @ userId)"

definition deleteCart :: "redis \<Rightarrow> string \<Rightarrow> bool \<times> redis" where
  "deleteCart r userId = del r (''cart:'' @ userId)"


definition checkRateLimit :: "redis \<Rightarrow> string \<Rightarrow> int \<Rightarrow> int \<Rightarrow> bool \<times> redis" where
  "checkRateLimit r key limit windowInSeconds =
     (case getClient r of
        None \<Rightarrow> (True, r)
      | Some client \<Rightarrow>
          (case client_incr client key of
             Inl _ \<Rightarrow> (True, r)
           | Inr (current, r1) \<Rightarrow>
               if current = 1
               then (case client_expire r1 key windowInSeconds of
                       Inl _ \<Rightarrow> (True, r1)
                     | Inr r2 \<Rightarrow> (current \<le> limit, r2))
               else (current \<le> limit, r1)))"

text \<open>
  A sequence of rate-limit checks of one identity; before each check the given number of
  seconds passes.
\<close>

fun checks :: "redis \<Rightarrow> string \<Rightarrow> int \<Rightarrow> int \<Rightarrow> int list \<Rightarrow> bool list \<times> redis" where
  "checks r key limit w [] = ([], r)"
| "checks r key limit w (d # ds) =
     (case checkRateLimit (tick d r) key limit w of
        (b, r1) \<Rightarrow> (case checks r1 key limit w ds of (bs, r2) \<Rightarrow> (b # bs, r2)))"

section \<open>Carts as the routes read them\<close>

text \<open>
  A cart is the object \<^verbatim>\<open>{items: [{product, quantity}, ...]}\<close>. The routes written here
  are the only writers of cart keys; a cached value of any other shape is read as no cart.
\<close>

record line =
  product :: string
  quantity :: int

definition js_of_line :: "line \<Rightarrow> jsvalue" where
  "js_of_line item = JObject [(''product'', JString (product item)), (''quantity'', JNumber (quantity item))]"

definition js_of_cart :: "line list \<Rightarrow> jsvalue" where
  "js_of_cart its = JObject [(''items'', JArray (map js_of_line its))]"

definition line_of_js :: "jsvalue \<Rightarrow> line option" where
  "line_of_js v =
     (case v of
        JObject kvs \<Rightarrow>
          (case (map_of kvs ''product'', map_of kvs ''quantity'') of
             (Some (JString p), Some (JNumber q)) \<Rightarrow> Some \<lparr>product = p, quantity = q\<rparr>
           | _ \<Rightarrow> None)
      | _ \<Rightarrow> None)"

definition cart_of_js :: "jsvalue \<Rightarrow> line list option" where
  "cart_of_js v =
     (case v of
        JObject kvs \<Rightarrow>
          (case map_of kvs ''items'' of
             Some (JArray vs) \<Rightarrow> those (map line_of_js vs)
           | _ \<Rightarrow> None)
      | _ \<Rightarrow> None)"

definition stored_cart :: "redis \<Rightarrow> string \<Rightarrow> line list option" where
  "stored_cart r userId = cart_of_js (getCart r userId)"

section \<open>The authoritative stores and the graph\<close>

text \<open>
  Modelled from the spec: the Mongoose models \<^verbatim>\<open>models/Product\<close> and \<^verbatim>\<open>models/Order\<close>
  are not among the sources. A product has the fields the routes read (\<^verbatim>\<open>name\<close>,
  \<^verbatim>\<open>price\<close>, \<^verbatim>\<open>stock\<close>, \<^verbatim>\<open>isActive\<close>, \<^verbatim>\<open>images\<close>); an order has "items: sequence of
  OrderLine {productId, quantity, unitPriceAtPurchase, name, imageRef}, subtotal, tax,
  shippingCost, total, status, timestamps for creation/delivery/cancellation" and is
  created with "status=pending". \<^verbatim>\<open>save()\<close> always succeeds; an order's id is its position
  in the collection.
\<close>

record product_doc =
  name :: string
  price :: rat
  stock :: int
  isActive :: bool
  images :: "string list"

record order_item =
  item_product :: string
  item_quantity :: int
  item_price :: rat
  item_name :: string
  item_image :: string

record order_doc =
  user :: string
  items :: "order_item list"
  shippingAddress :: string
  paymentMethod :: string
  subtotal :: rat
  tax :: rat
  shippingCost :: rat
  total :: rat
  orderStatus :: string
  createdAt :: int
  deliveredAt :: "int option"
  cancelledAt :: "int option"
  cancellationReason :: "string option"

record edge =
  source :: string
  target :: string
  kind :: string
  timestamp :: int

record graph =
  online :: bool
  user_nodes :: "string list"
  product_nodes :: "string list"
  edges :: "edge list"

record shop =
  products :: "string \<Rightarrow> product_doc option"
  orders :: "order_doc list"
  cache :: redis
  neo4j :: graph

section \<open>Responses\<close>

text \<open>
  The failures of the routes by kind: a request that fails validation (400), a caller who
  does not own the order (403), a missing product, cart or cart line (404), a quantity above
  the stock (400) and an order too far along to cancel (400).
\<close>

datatype error = BadRequest | Forbidden | NotFound | InsufficientStock | InvalidState

section \<open>Neo4jService\<close>

text \<open>
  \<^verbatim>\<open>createUserInteraction\<close> matches the user node and the product node and creates the
  edge between them; where a node is missing nothing is created. An unreachable graph store
  makes the call throw (\<open>None\<close>).
\<close>

definition createUserInteraction :: "graph \<Rightarrow> string \<Rightarrow> string \<Rightarrow> string \<Rightarrow> int \<Rightarrow> graph option" where
  "createUserInteraction g userId productId interactionType ts =
     (if \<not> online g then None
      else if userId \<in> set (user_nodes g) \<and> productId \<in> set (product_nodes g)
        then Some (g\<lparr>edges := edges g @ [\<lparr>source = userId, target = productId,
                                            kind = interactionType, timestamp = ts\<rparr>]\<rparr>)
      else Some g)"

section \<open>Cart routes\<close>

text \<open>\<^verbatim>\<open>product.images[0]?.url || ''\<close>\<close>

definition first_image :: "product_doc \<Rightarrow> string" where
  "first_image p = (case images p of [] \<Rightarrow> [] | url # _ \<Rightarrow> url)"

text \<open>\<^verbatim>\<open>Array.prototype.findIndex\<close>, with \<open>None\<close> for -1, and \<^verbatim>\<open>splice(i, 1)\<close>.\<close>

fun findIndex :: "('a \<Rightarrow> bool) \<Rightarrow> 'a list \<Rightarrow> nat option" where
  "findIndex P [] = None"
| "findIndex P (x # xs) = (if P x then Some 0 else map_option Suc (findIndex P xs))"

definition splice1 :: "nat \<Rightarrow> 'a list \<Rightarrow> 'a list" where
  "splice1 i xs = take i xs @ drop (Suc i) xs"

definition itemCount :: "line list \<Rightarrow> int" where
  "itemCount its = foldl (\<lambda>sum item. sum + quantity item) 0 its"





text \<open>
  Every mutation ends the same way: the whole cart is written back and the response carries
  the number of pieces in it.
\<close>

definition save_cart :: "shop \<Rightarrow> string \<Rightarrow> line list \<Rightarrow> (error + int) \<times> shop" where
  "save_cart s userId cart =
     (Inr (itemCount cart), s\<lparr>cache := snd (setCart (cache s) userId (js_of_cart cart))\<rparr>)"

text \<open>\<^verbatim>\<open>POST /api/cart/add\<close>; the quantity defaults to 1.\<close>

definition cart_add :: "shop \<Rightarrow> string \<Rightarrow> string \<Rightarrow> int option \<Rightarrow> (error + int) \<times> shop" where
  "cart_add s userId productId quantity_opt =
     (let q = (case quantity_opt of None \<Rightarrow> 1 | Some n \<Rightarrow> n)
      in if productId = [] then (Inl BadRequest, s)
         else case products s productId of
                None \<Rightarrow> (Inl NotFound, s)
              | Some p \<Rightarrow>
                  if \<not> isActive p then (Inl NotFound, s)
                  else if stock p < q then (Inl InsufficientStock, s)
                  else
                    (let cart = (case cart_of_js (getCart (cache s) userId) of
                                   None \<Rightarrow> [] | Some c \<Rightarrow> c)
                     in case findIndex (\<lambda>item. product item = productId) cart of
                          Some i \<Rightarrow>
                            (let newQuantity = quantity (cart ! i) + q
                             in if newQuantity > stock p then (Inl InsufficientStock, s)
                                else save_cart s userId
                                       (cart[i := (cart ! i)\<lparr>quantity := newQuantity\<rparr>]))
                        | None \<Rightarrow>
                            save_cart s userId (cart @ [\<lparr>product = productId, quantity = q\<rparr>])))"

text \<open>\<^verbatim>\<open>PUT /api/cart/update\<close>\<close>

definition cart_update :: "shop \<Rightarrow> string \<Rightarrow> string \<Rightarrow> int option \<Rightarrow> (error + int) \<times> shop" where
  "cart_update s userId productId quantity_opt =
     (case quantity_opt of
        None \<Rightarrow> (Inl BadRequest, s)
      | Some q \<Rightarrow>
          if productId = [] then (Inl BadRequest, s)
          else if q < 0 then (Inl BadRequest, s)
          else case products s productId of
                 None \<Rightarrow> (Inl NotFound, s)
               | Some p \<Rightarrow>
                   if \<not> isActive p then (Inl NotFound, s)
                   else case cart_of_js (getCart (cache s) userId) of
                          None \<Rightarrow> (Inl NotFound, s)
                        | Some cart \<Rightarrow>
                            (case findIndex (\<lambda>item. product item = productId) cart of
                               None \<Rightarrow> (Inl NotFound, s)
                             | Some i \<Rightarrow>
                                 if q = 0 then save_cart s userId (splice1 i cart)
                                 else if q > stock p then (Inl InsufficientStock, s)
                                 else save_cart s userId (cart[i := (cart ! i)\<lparr>quantity := q\<rparr>])))"

text \<open>\<^verbatim>\<open>DELETE /api/cart/remove/:productId\<close> and \<^verbatim>\<open>DELETE /api/cart/clear\<close>\<close>

definition cart_remove :: "shop \<Rightarrow> string \<Rightarrow> string \<Rightarrow> (error + int) \<times> shop" where
  "cart_remove s userId productId =
     (case cart_of_js (getCart (cache s) userId) of
        None \<Rightarrow> (Inl NotFound, s)
      | Some cart \<Rightarrow>
          (case findIndex (\<lambda>item. product item = productId) cart of
             None \<Rightarrow> (Inl NotFound, s)
           | Some i \<Rightarrow> save_cart s userId (splice1 i cart)))"

definition cart_clear :: "shop \<Rightarrow> string \<Rightarrow> (error + unit) \<times> shop" where
  "cart_clear s userId = (Inr (), s\<lparr>cache := snd (deleteCart (cache s) userId)\<rparr>)"

section \<open>Order routes\<close>

text \<open>
  \<^verbatim>\<open>POST /api/orders\<close>. The loop over the requested lines checks a line, saves the
  product with its stock reduced and records the purchase in the graph, one line after the
  other; a failure of the graph call is caught and logged.
\<close>

fun process_items ::
  "shop \<Rightarrow> int \<Rightarrow> string \<Rightarrow> line list \<Rightarrow> rat \<Rightarrow> order_item list \<Rightarrow> (error + rat \<times> order_item list) \<times> shop"
where
  "process_items s now userId [] sub orderItems = (Inr (sub, orderItems), s)"
| "process_items s now userId (item # rest) sub orderItems =
     (case products s (product item) of
        None \<Rightarrow> (Inl NotFound, s)
      | Some p \<Rightarrow>
          if stock p < quantity item then (Inl InsufficientStock, s)
          else
            (let itemTotal = price p * of_int (quantity item);
                 sub' = sub + itemTotal;
                 orderItems' = orderItems @
                   [\<lparr>item_product = product item, item_quantity = quantity item,
                     item_price = price p, item_name = name p, item_image = first_image p\<rparr>];
                 s1 = s\<lparr>products := (products s)(product item \<mapsto> p\<lparr>stock := stock p - quantity item\<rparr>)\<rparr>;
                 s2 = (case createUserInteraction (neo4j s1) userId (product item) ''PURCHASED'' now of
                         None \<Rightarrow> s1
                       | Some g \<Rightarrow> s1\<lparr>neo4j := g\<rparr>)
             in process_items s2 now userId rest sub' orderItems'))"

text \<open>
  Modelled from the spec: \<^verbatim>\<open>Order.create\<close> of the missing model; "persist the Order
  (authoritative, status=pending)". The new order goes to the end of the collection.
\<close>

definition Order_create :: "shop \<Rightarrow> order_doc \<Rightarrow> shop" where
  "Order_create s ord = s\<lparr>orders := orders s @ [ord]\<rparr>"

definition order_create ::
  "shop \<Rightarrow> int \<Rightarrow> string \<Rightarrow> line list \<Rightarrow> string \<Rightarrow> string \<Rightarrow> (error + order_doc) \<times> shop" where
  "order_create s now userId its address method =
     (if its = [] then (Inl BadRequest, s)
      else case process_items s now userId its 0 [] of
             (Inl e, s1) \<Rightarrow> (Inl e, s1)
           | (Inr (sub, orderItems), s1) \<Rightarrow>
               (let tx = sub * (8 / 100);
                    shipping = (if sub > 100 then 0 else 10);
                    tot = sub + tx + shipping;
                    ord = \<lparr>user = userId, items = orderItems, shippingAddress = address,
                             paymentMethod = method, subtotal = sub, tax = tx,
                             shippingCost = shipping, total = tot, orderStatus = ''pending'',
                             createdAt = now, deliveredAt = None, cancelledAt = None,
                             cancellationReason = None\<rparr>;
                    s2 = Order_create s1 ord;
                    s3 = s2\<lparr>cache := snd (deleteCart (cache s2) userId)\<rparr>
                in (Inr ord, s3)))"

text \<open>\<^verbatim>\<open>PUT /api/orders/:id/cancel\<close>\<close>

fun restore_stock :: "(string \<Rightarrow> product_doc option) \<Rightarrow> order_item list \<Rightarrow> (string \<Rightarrow> product_doc option)" where
  "restore_stock ps [] = ps"
| "restore_stock ps (item # rest) =
     (case ps (item_product item) of
        None \<Rightarrow> restore_stock ps rest
      | Some p \<Rightarrow>
          restore_stock (ps(item_product item \<mapsto> p\<lparr>stock := stock p + item_quantity item\<rparr>)) rest)"

text \<open>
  Modelled from the spec: \<^verbatim>\<open>Order.findById\<close> of the missing model, "findById"; an id
  is a position in the collection.
\<close>

definition Order_findById :: "shop \<Rightarrow> nat \<Rightarrow> order_doc option" where
  "Order_findById s oid = (if oid < length (orders s) then Some (orders s ! oid) else None)"

definition order_cancel ::
  "shop \<Rightarrow> int \<Rightarrow> string \<Rightarrow> nat \<Rightarrow> string option \<Rightarrow> (error + order_doc) \<times> shop" where
  "order_cancel s now userId oid reason =
     (case Order_findById s oid of
        None \<Rightarrow> (Inl NotFound, s)
      | Some ord \<Rightarrow>
          if user ord \<noteq> userId then (Inl Forbidden, s)
          else if orderStatus ord \<in> set [''shipped'', ''delivered'', ''cancelled'']
            then (Inl InvalidState, s)
          else
            (let ps = restore_stock (products s) (items ord);
                 order1 = ord\<lparr>orderStatus := ''cancelled'', cancelledAt := Some now\<rparr>;
                 order2 = (case reason of
                             None \<Rightarrow> order1
                           | Some txt \<Rightarrow> if txt = [] then order1
                                         else order1\<lparr>cancellationReason := Some txt\<rparr>)
             in (Inr order2, s\<lparr>products := ps, orders := (orders s)[oid := order2]\<rparr>)))"


section \<open>Notions used in the statements\<close>

text \<open>
  A value that JSON can carry back: no number that is not finite, and no object with a
  repeated key (a JavaScript object has none). \<open>fuel\<close> is what the parser spends on a
  value, \<open>delim\<close> what may follow a value inside a text.
\<close>

fun json_safe :: "jsvalue \<Rightarrow> bool" where
  "json_safe JNaN = False"
| "json_safe JInfinity = False"
| "json_safe JNegInfinity = False"
| "json_safe (JArray vs) = list_all json_safe vs"
| "json_safe (JObject kvs) = (distinct (map fst kvs) \<and> list_all (\<lambda>kv. json_safe (snd kv)) kvs)"
| "json_safe _ = True"

fun fuel :: "jsvalue \<Rightarrow> nat" where
  "fuel (JArray vs) = Suc (sum_list (map (\<lambda>v. Suc (fuel v)) vs))"
| "fuel (JObject kvs) = Suc (sum_list (map (\<lambda>kv. Suc (fuel (snd kv))) kvs))"
| "fuel _ = 1"

definition delim :: "string \<Rightarrow> bool" where
  "delim rest = (case rest of [] \<Rightarrow> True | c # _ \<Rightarrow> c = CHR '','' \<or> c = CHR '']'' \<or> c = CHR ''}'')"

definition member_text :: "string \<times> jsvalue \<Rightarrow> string" where
  "member_text kv = QuoteJSONString (fst kv) @ CHR '':'' # JSON_stringify (snd kv)"

definition cart_lines :: "line list \<Rightarrow> (string \<times> int) list" where
  "cart_lines cart = map (\<lambda>item. (product item, quantity item)) cart"

text \<open>
  A cart as the association list from product to quantity, and back; the cart a user has
  stored, empty when there is none; the quantity the product's line would have after \<open>q\<close>
  more pieces are added.
\<close>

definition lines_cart :: "(string \<times> int) list \<Rightarrow> line list" where
  "lines_cart kvs = map (\<lambda>kv. \<lparr>product = fst kv, quantity = snd kv\<rparr>) kvs"

definition cart_or_empty :: "redis \<Rightarrow> string \<Rightarrow> line list" where
  "cart_or_empty r userId = (case stored_cart r userId of None \<Rightarrow> [] | Some c \<Rightarrow> c)"

definition resulting_quantity :: "line list \<Rightarrow> string \<Rightarrow> int \<Rightarrow> int" where
  "resulting_quantity cart pid q = (case map_of (cart_lines cart) pid of None \<Rightarrow> q | Some n \<Rightarrow> n + q)"


definition live_price :: "shop \<Rightarrow> string \<Rightarrow> rat" where
  "live_price s pid = (case products s pid of None \<Rightarrow> 0 | Some p \<Rightarrow> price p)"



definition snapshot :: "shop \<Rightarrow> line \<Rightarrow> order_item" where
  "snapshot s item =
     \<lparr>item_product = product item, item_quantity = quantity item,
      item_price = live_price s (product item),
      item_name = (case products s (product item) of None \<Rightarrow> [] | Some p \<Rightarrow> name p),
      item_image = (case products s (product item) of None \<Rightarrow> [] | Some p \<Rightarrow> first_image p)\<rparr>"

definition purchase :: "shop \<Rightarrow> int \<Rightarrow> string \<Rightarrow> line \<Rightarrow> product_doc \<Rightarrow> shop" where
  "purchase s now u item p =
     (let s1 = s\<lparr>products := (products s)(product item \<mapsto> p\<lparr>stock := stock p - quantity item\<rparr>)\<rparr>
      in case createUserInteraction (neo4j s1) u (product item) ''PURCHASED'' now of
           None \<Rightarrow> s1
         | Some g \<Rightarrow> s1\<lparr>neo4j := g\<rparr>)"

text \<open>
  No two lines of the user's stored cart are for the same product. A request to a cart
  route, and the state after a sequence of such requests of one user.
\<close>

definition unique_products :: "shop \<Rightarrow> string \<Rightarrow> bool" where
  "unique_products s u =
     (case stored_cart (cache s) u of None \<Rightarrow> True | Some c \<Rightarrow> distinct (map product c))"

datatype cart_request =
    AddItem string "int option"
  | UpdateItem string "int option"
  | RemoveItem string
  | ClearCart

fun cart_step :: "shop \<Rightarrow> string \<Rightarrow> cart_request \<Rightarrow> shop" where
  "cart_step s u (AddItem pid q) = snd (cart_add s u pid q)"
| "cart_step s u (UpdateItem pid q) = snd (cart_update s u pid q)"
| "cart_step s u (RemoveItem pid) = snd (cart_remove s u pid)"
| "cart_step s u ClearCart = snd (cart_clear s u)"

definition cart_run :: "shop \<Rightarrow> string \<Rightarrow> cart_request list \<Rightarrow> shop" where
  "cart_run s u reqs = foldl (\<lambda>s' req. cart_step s' u req) s reqs"

section \<open>Example states\<close>

text \<open>
  A reachable backend with nothing cached; a shop with two active products (\<open>p1\<close> with a
  given stock at 10.00, \<open>p2\<close> with stock 4 at 5.00), one inactive product and no orders;
  the same shop with a given cart cached for user \<open>u\<close>, and with one order of a given
  status.
\<close>

definition fresh_redis :: redis where
  "fresh_redis = \<lparr>link = Ready, clock = 0, keyspace = Map.empty\<rparr>"

definition demo_shop :: "int \<Rightarrow> shop" where
  "demo_shop n =
     \<lparr>products = [''p1'' \<mapsto> \<lparr>name = ''tea'', price = 10, stock = n, isActive = True, images = []\<rparr>,
                  ''p2'' \<mapsto> \<lparr>name = ''cup'', price = 5, stock = 4, isActive = True, images = [''cup.png'']\<rparr>,
                  ''p3'' \<mapsto> \<lparr>name = ''pot'', price = 30, stock = 1, isActive = False, images = []\<rparr>],
      orders = [],
      cache = fresh_redis,
      neo4j = \<lparr>online = True, user_nodes = [''u''], product_nodes = [''p1'', ''p2''], edges = []\<rparr>\<rparr>"

definition shop_with_cart :: "line list \<Rightarrow> shop" where
  "shop_with_cart c = (demo_shop 5)\<lparr>cache := snd (setCart fresh_redis ''u'' (js_of_cart c))\<rparr>"

definition demo_order :: "string \<Rightarrow> order_doc" where
  "demo_order st =
     \<lparr>user = ''u'',
      items = [\<lparr>item_product = ''p1'', item_quantity = 2, item_price = 10, item_name = ''tea'', item_image = []\<rparr>,
               \<lparr>item_product = ''p2'', item_quantity = 3, item_price = 5, item_name = ''cup'', item_image = ''cup.png''\<rparr>,
               \<lparr>item_product = ''p1'', item_quantity = 1, item_price = 10, item_name = ''tea'', item_image = []\<rparr>],
      shippingAddress = ''1 Main St'', paymentMethod = ''card'',
      subtotal = 45, tax = 18 / 5, shippingCost = 10, total = 293 / 5,
      orderStatus = st, createdAt = 7, deliveredAt = None, cancelledAt = None,
      cancellationReason = None\<rparr>"

definition shop_with_order :: "string \<Rightarrow> shop" where
  "shop_with_order st = (demo_shop 5)\<lparr>orders := [demo_order st]\<rparr>"


section \<open>Decimal texts read back\<close>

lemma show_nat_nonempty: "show_nat n \<noteq> []"
  by (induction n rule: show_nat.induct) (subst show_nat.simps, simp)

lemma of_char_digit_char: "d < 10 \<Longrightarrow> (of_char (digit_char d) :: nat) = 48 + d"
  by (simp add: digit_char_def)

lemma is_digit_digit_char: "d < 10 \<Longrightarrow> is_digit (digit_char d)"
  by (simp add: is_digit_def of_char_digit_char)

lemma digit_val_digit_char: "d < 10 \<Longrightarrow> digit_val (digit_char d) = d"
  by (simp add: digit_val_def of_char_digit_char)

lemma digit_char_zero: "d < 10 \<Longrightarrow> digit_char d = CHR ''0'' \<longleftrightarrow> d = 0"
proof -
  assume d: "d < 10"
  have "digit_char d = CHR ''0'' \<longleftrightarrow> (of_char (digit_char d) :: nat) = of_char (CHR ''0'')"
    by (simp only: of_char_eq_iff)
  also have "\<dots> \<longleftrightarrow> d = 0" using d by (simp add: of_char_digit_char)
  finally show ?thesis .
qed

lemma show_nat_digits: "list_all is_digit (show_nat n)"
proof (induction n rule: show_nat.induct)
  case (1 n)
  show ?case
  proof (cases "n < 10")
    case True
    then show ?thesis by (subst show_nat.simps) (simp add: is_digit_digit_char)
  next
    case False
    with 1 show ?thesis by (subst show_nat.simps) (simp add: is_digit_digit_char)
  qed
qed

lemma digits_val_snoc: "digits_val (ds @ [c]) = 10 * digits_val ds + digit_val c"
  by (simp add: digits_val_def)

lemma digits_val_show_nat: "digits_val (show_nat n) = n"
proof (induction n rule: show_nat.induct)
  case (1 n)
  show ?case
  proof (cases "n < 10")
    case True
    then show ?thesis
      by (subst show_nat.simps) (simp add: digits_val_def digit_val_digit_char)
  next
    case False
    with 1 show ?thesis
      by (subst show_nat.simps) (simp add: digits_val_snoc digit_val_digit_char)
  qed
qed

lemma hd_show_nat: "0 < n \<Longrightarrow> hd (show_nat n) \<noteq> CHR ''0''"
proof (induction n rule: show_nat.induct)
  case (1 n)
  show ?case
  proof (cases "n < 10")
    case True
    with 1 show ?thesis by (subst show_nat.simps) (simp add: digit_char_zero)
  next
    case False
    then have "0 < n div 10" by simp
    with 1 False show ?thesis
      by (subst show_nat.simps) (simp add: show_nat_nonempty)
  qed
qed

lemma digit_char_0: "digit_char 0 = CHR ''0''"
  using digit_char_zero [of 0] by simp

lemma show_nat_0: "show_nat 0 = [CHR ''0'']"
  by (subst show_nat.simps) (simp add: digit_char_0)

lemma parse_nat_show_nat: "parse_nat (show_nat n) = Some n"
proof (cases "n = 0")
  case True
  then show ?thesis by (simp add: show_nat_0 parse_nat_def digits_val_def digit_val_def is_digit_def)
next
  case False
  then show ?thesis
    by (simp add: parse_nat_def show_nat_nonempty show_nat_digits digits_val_show_nat hd_show_nat)
qed

lemma is_digit_not_minus: "is_digit c \<Longrightarrow> c \<noteq> CHR ''-''"
  by (auto simp: is_digit_def)

lemma show_nat_cons: "\<exists>c cs. show_nat n = c # cs \<and> is_digit c"
proof -
  obtain c cs where eq: "show_nat n = c # cs"
    using show_nat_nonempty [of n] by (cases "show_nat n") auto
  with show_nat_digits [of n] have "is_digit c" by simp
  with eq show ?thesis by blast
qed

lemma parse_int_show_int: "parse_int (show_int i) = Some i"
proof (cases "i < 0")
  case True
  then have "nat (- i) \<noteq> 0" by simp
  with True show ?thesis
    by (simp add: parse_int_def show_int_def parse_nat_show_nat)
next
  case False
  obtain c cs where eq: "show_nat (nat i) = c # cs" and c: "is_digit c"
    using show_nat_cons by blast
  have "parse_nat (c # cs) = Some (nat i)"
    using parse_nat_show_nat [of "nat i"] eq by simp
  with False eq c show ?thesis
    by (simp add: parse_int_def show_int_def is_digit_not_minus)
qed

section \<open>The rate limiter\<close>

lemma keyspace_tick_None: "keyspace r k = None \<Longrightarrow> keyspace (tick d r) k = None"
  by (simp add: tick_def)

lemma keyspace_tick_live:
  "keyspace r k = Some e \<Longrightarrow> \<not> expired (clock r + d) e \<Longrightarrow> keyspace (tick d r) k = Some e"
  by (simp add: tick_def)

lemma link_tick: "link (tick d r) = link r"
  by (simp add: tick_def)

lemma clock_tick: "clock (tick d r) = clock r + d"
  by (simp add: tick_def)

lemma checkRateLimit_down: "link r \<noteq> Ready \<Longrightarrow> checkRateLimit r key limit w = (True, r)"
  by (cases "link r") (simp_all add: checkRateLimit_def getClient_def client_incr_def)

lemma checkRateLimit_fresh:
  assumes "link r = Ready" "keyspace r key = None"
  shows "checkRateLimit r key limit w =
           (1 \<le> limit,
            if 0 < w then r\<lparr>keyspace := (keyspace r)(key \<mapsto> \<lparr>payload = show_int 1, deadline = Some (clock r + w)\<rparr>)\<rparr>
            else r)"
  using assms
  by (auto simp: checkRateLimit_def getClient_def client_incr_def client_expire_def store_def expiring_def
      fun_upd_idem)

lemma checkRateLimit_counting:
  assumes "link r = Ready" "keyspace r key = Some e" "parse_int (payload e) = Some n" "n \<noteq> 0"
  shows "checkRateLimit r key limit w =
           (n + 1 \<le> limit, r\<lparr>keyspace := (keyspace r)(key \<mapsto> e\<lparr>payload := show_int (n + 1)\<rparr>)\<rparr>)"
  using assms
  by (auto simp: checkRateLimit_def getClient_def client_incr_def store_def)

lemma checks_counting:
  assumes "link r = Ready"
    and "keyspace r key = Some \<lparr>payload = show_int n, deadline = Some dl\<rparr>"
    and "1 \<le> n"
    and "\<forall>d \<in> set ds. 0 \<le> d"
    and "clock r + sum_list ds < dl"
  shows "fst (checks r key limit w ds) = map (\<lambda>i. n + int i < limit) [0..<length ds]"
  using assms
proof (induction ds arbitrary: r n)
  case Nil
  then show ?case by simp
next
  case (Cons d ds)
  let ?e = "\<lparr>payload = show_int n, deadline = Some dl\<rparr>"
  let ?r0 = "tick d r"
  let ?r1 = "?r0\<lparr>keyspace := (keyspace ?r0)(key \<mapsto> ?e\<lparr>payload := show_int (n + 1)\<rparr>)\<rparr>"
  from Cons.prems have d: "0 \<le> d" and ds: "\<forall>d \<in> set ds. 0 \<le> d" by simp_all
  then have sum: "0 \<le> sum_list ds" by (simp add: sum_list_nonneg)
  with Cons.prems have live: "\<not> expired (clock r + d) ?e" by (simp add: expired_def)
  have step: "checkRateLimit ?r0 key limit w = (n + 1 \<le> limit, ?r1)"
    using Cons.prems live
    by (intro checkRateLimit_counting) (simp_all add: link_tick keyspace_tick_live clock_tick parse_int_show_int)
  have "fst (checks ?r1 key limit w ds) = map (\<lambda>i. (n + 1) + int i < limit) [0..<length ds]"
    using Cons.prems ds
    by (intro Cons.IH) (simp_all add: link_tick clock_tick)
  then have tl: "fst (checks ?r1 key limit w ds) = map (\<lambda>i. n + int (Suc i) < limit) [0..<length ds]"
    by (simp add: add.commute add.left_commute)
  have hd: "(n + 1 \<le> limit) = (n + int 0 < limit)" by simp linarith
  have "fst (checks r key limit w (d # ds)) = (n + 1 \<le> limit) # fst (checks ?r1 key limit w ds)"
    by (simp add: step split: prod.splits)
  also have "\<dots> = map (\<lambda>i. n + int i < limit) (0 # map Suc [0..<length ds])"
    unfolding tl hd by (simp add: comp_def)
  also have "0 # map Suc [0..<length ds] = [0..<length (d # ds)]"
    by (simp add: upt_conv_Cons map_Suc_upt del: upt_Suc)
  finally show ?case .
qed

lemma checks_window:
  assumes "link r = Ready" "keyspace r key = None"
    and "\<forall>d \<in> set ds. 0 \<le> d"
    and "sum_list (tl ds) < w"
  shows "fst (checks r key limit w ds) = map (\<lambda>i. int i < limit) [0..<length ds]"
proof (cases ds)
  case Nil
  then show ?thesis by simp
next
  case (Cons d ds')
  let ?r0 = "tick d r"
  let ?e = "\<lparr>payload = show_int 1, deadline = Some (clock ?r0 + w)\<rparr>"
  let ?r1 = "?r0\<lparr>keyspace := (keyspace ?r0)(key \<mapsto> ?e)\<rparr>"
  from assms Cons have ds': "\<forall>d \<in> set ds'. 0 \<le> d" and sum: "sum_list ds' < w" by simp_all
  then have "0 \<le> sum_list ds'" by (simp add: sum_list_nonneg)
  with sum have w: "0 < w" by simp
  have step: "checkRateLimit ?r0 key limit w = (1 \<le> limit, ?r1)"
    using assms w by (simp add: checkRateLimit_fresh link_tick keyspace_tick_None)
  have tl: "fst (checks ?r1 key limit w ds') = map (\<lambda>i. 1 + int i < limit) [0..<length ds']"
    using assms ds' sum
    by (intro checks_counting [where dl = "clock ?r0 + w"]) (simp_all add: link_tick)
  have "fst (checks r key limit w ds) = (1 \<le> limit) # fst (checks ?r1 key limit w ds')"
    by (simp add: Cons step split: prod.splits)
  also have "\<dots> = map (\<lambda>i. int i < limit) (0 # map Suc [0..<length ds'])"
    by (simp add: tl comp_def) linarith
  also have "0 # map Suc [0..<length ds'] = [0..<length ds]"
    by (simp add: Cons upt_conv_Cons map_Suc_upt del: upt_Suc)
  finally show ?thesis .
qed


text \<open>
  Claim C2. For every identity, limit and window: \<^verbatim>\<open>checkRateLimit\<close> answers \<open>True\<close>
  and changes nothing when the backend is unreachable (fail open). On a reachable backend
  whose counter stands at \<open>n\<close> (0 for an absent key) it allows the request iff
  \<open>n + 1 \<le> limit\<close>, and leaves the counter at \<open>n + 1\<close>; the expiry is set to the window
  when the value after the increment is 1 (a window that is not positive leaves the key
  absent at once) and is left as it was otherwise. Hence, for a
  fresh identity and checks that all fall into one window (the delays after the first
  check add up to less than the window), check number \<open>i\<close>, counted from 0, is allowed iff
  \<open>i < limit\<close>: with \<open>limit \<ge> 1\<close> the first \<open>limit\<close> checks are allowed and check
  \<open>limit + 1\<close> is refused.
\<close>

theorem checkRateLimit_spec:
  "(link r \<noteq> Ready \<longrightarrow> checkRateLimit r key limit w = (True, r)) \<and>
   (link r = Ready \<and> counter_value r key = Some n \<longrightarrow>
      fst (checkRateLimit r key limit w) = (n + 1 \<le> limit) \<and>
      (n + 1 = 1 \<and> 0 < w \<longrightarrow>
         counter_value (snd (checkRateLimit r key limit w)) key = Some 1 \<and>
         expiry (snd (checkRateLimit r key limit w)) key = Some (clock r + w)) \<and>
      (n + 1 = 1 \<and> w \<le> 0 \<longrightarrow>
         keyspace (snd (checkRateLimit r key limit w)) key = None) \<and>
      (n + 1 \<noteq> 1 \<longrightarrow>
         counter_value (snd (checkRateLimit r key limit w)) key = Some (n + 1) \<and>
         expiry (snd (checkRateLimit r key limit w)) key = expiry r key)) \<and>
   (link r = Ready \<and> keyspace r key = None \<and> (\<forall>d \<in> set ds. 0 \<le> d) \<and> sum_list (tl ds) < w \<longrightarrow>
      fst (checks r key limit w ds) = map (\<lambda>i. int i < limit) [0..<length ds] \<and>
      (1 \<le> limit \<and> length ds = nat limit + 1 \<longrightarrow>
         take (nat limit) (fst (checks r key limit w ds)) = replicate (nat limit) True \<and>
         fst (checks r key limit w ds) ! nat limit = False))"
proof (intro conjI impI)
  assume "link r \<noteq> Ready"
  then show "checkRateLimit r key limit w = (True, r)" by (rule checkRateLimit_down)
next
  assume a: "link r = Ready \<and> counter_value r key = Some n"
  show "fst (checkRateLimit r key limit w) = (n + 1 \<le> limit)"
    using a
    by (auto simp: checkRateLimit_def getClient_def client_incr_def client_expire_def store_def
        counter_value_def split: option.splits)
  {
    assume "n + 1 = 1 \<and> 0 < w"
    with a show "counter_value (snd (checkRateLimit r key limit w)) key = Some 1"
      using parse_int_show_int [of 1]
      by (auto simp: checkRateLimit_def getClient_def client_incr_def client_expire_def store_def
        counter_value_def expiring_def split: option.splits)
  }
  {
    assume "n + 1 = 1 \<and> 0 < w"
    with a show "expiry (snd (checkRateLimit r key limit w)) key = Some (clock r + w)"
      by (auto simp: checkRateLimit_def getClient_def client_incr_def client_expire_def store_def
        counter_value_def expiry_def expiring_def split: option.splits)
  }
  {
    assume "n + 1 = 1 \<and> w \<le> 0"
    with a show "keyspace (snd (checkRateLimit r key limit w)) key = None"
      by (auto simp: checkRateLimit_def getClient_def client_incr_def client_expire_def store_def
        counter_value_def expiring_def split: option.splits)
  }
  {
    assume "n + 1 \<noteq> 1"
    with a show "counter_value (snd (checkRateLimit r key limit w)) key = Some (n + 1)"
      by (auto simp: checkRateLimit_def getClient_def client_incr_def client_expire_def store_def
        counter_value_def parse_int_show_int split: option.splits)
  }
  {
    assume "n + 1 \<noteq> 1"
    with a show "expiry (snd (checkRateLimit r key limit w)) key = expiry r key"
      by (auto simp: checkRateLimit_def getClient_def client_incr_def client_expire_def store_def
        counter_value_def expiry_def split: option.splits)
  }
next
  assume a: "link r = Ready \<and> keyspace r key = None \<and> (\<forall>d \<in> set ds. 0 \<le> d) \<and> sum_list (tl ds) < w"
  then show eq: "fst (checks r key limit w ds) = map (\<lambda>i. int i < limit) [0..<length ds]"
    by (intro checks_window) simp_all
  {
    assume b: "1 \<le> limit \<and> length ds = nat limit + 1"
    then show "take (nat limit) (fst (checks r key limit w ds)) = replicate (nat limit) True"
      unfolding eq by (auto simp: take_map intro!: nth_equalityI)
    from b show "fst (checks r key limit w ds) ! nat limit = False"
      unfolding eq by (simp del: upt_Suc)
  }
qed

theorem checkRateLimit_spec_witness:
  "checkRateLimit \<lparr>link = Unreachable, clock = 0, keyspace = (\<lambda>k. None)\<rparr> ''ip'' 2 60
     = (True, \<lparr>link = Unreachable, clock = 0, keyspace = (\<lambda>k. None)\<rparr>) \<and>
   fst (checks \<lparr>link = Ready, clock = 0, keyspace = (\<lambda>k. None)\<rparr> ''ip'' 2 60 [0, 10, 20])
     = [True, True, False]"
  using checkRateLimit_spec [of "\<lparr>link = Unreachable, clock = 0, keyspace = (\<lambda>k. None)\<rparr>" "''ip''" 2 60 0 "[]"]
    checkRateLimit_spec [of "\<lparr>link = Ready, clock = 0, keyspace = (\<lambda>k. None)\<rparr>" "''ip''" 2 60 0 "[0, 10, 20]"]
  by (simp add: upt_conv_Cons del: upt_Suc)

section \<open>JSON texts read back\<close>

lemma hex_val_hex_char: "d < 16 \<Longrightarrow> hex_val (hex_char d) = Some d"
  by (auto simp: hex_val_def hex_char_def Let_def)

lemma parse_chars_quote_char:
  "parse_chars (quote_char c @ s) = cons_char c (parse_chars s)"
proof -
  consider "c = CHR 0x08" | "c = CHR 0x09" | "c = CHR 0x0A" | "c = CHR 0x0C" | "c = CHR 0x0D"
    | "c = CHR 0x22" | "c = CHR 0x5C"
    | "c \<notin> {CHR 0x08, CHR 0x09, CHR 0x0A, CHR 0x0C, CHR 0x0D, CHR 0x22, CHR 0x5C}" "(of_char c :: nat) < 32"
    | "c \<notin> {CHR 0x08, CHR 0x09, CHR 0x0A, CHR 0x0C, CHR 0x0D, CHR 0x22, CHR 0x5C}" "\<not> (of_char c :: nat) < 32"
    by blast
  then show ?thesis
  proof cases
    case 8
    have "(of_char c :: nat) div 16 < 16" "(of_char c :: nat) mod 16 < 16"
      using 8 by simp_all
    moreover have "hex_val CHR ''0'' = Some 0"
      by (simp add: hex_val_def)
    ultimately have "code_unit CHR ''0'' CHR ''0'' (hex_char (of_char c div 16)) (hex_char (of_char c mod 16)) = Some c"
      by (simp add: code_unit_def hex_val_hex_char)
    with 8 show ?thesis by (simp add: quote_char_def)
  next
    case 9
    then show ?thesis by (simp add: quote_char_def)
  qed (simp_all add: quote_char_def unescape_def)
qed

lemma parse_chars_quoted:
  "parse_chars (concat (map quote_char s) @ CHR 0x22 # rest) = Some (s, rest)"
  by (induction s) (simp_all add: parse_chars_quote_char cons_char_def)

lemma takeWhile_digits:
  "list_all is_digit ds \<Longrightarrow> rest = [] \<or> \<not> is_digit (hd rest) \<Longrightarrow>
     takeWhile is_digit (ds @ rest) = ds \<and> dropWhile is_digit (ds @ rest) = rest"
  by (induction ds) (auto simp: takeWhile_eq_Nil_iff dropWhile_eq_self_iff)

lemma delim_not_digit: "delim rest \<Longrightarrow> rest = [] \<or> \<not> is_digit (hd rest)"
  by (auto simp: delim_def is_digit_def split: list.splits)

lemma delim_not_fraction:
  "delim rest \<Longrightarrow> \<not> (rest \<noteq> [] \<and> (hd rest = CHR ''.'' \<or> hd rest = CHR ''e'' \<or> hd rest = CHR ''E''))"
  by (auto simp: delim_def split: list.splits)

lemma skip_ws_Cons: "\<not> is_ws c \<Longrightarrow> skip_ws (c # cs) = c # cs"
  by (simp add: skip_ws_def)

lemma parse_number_show_nat:
  assumes "delim rest"
  shows "parse_number (show_nat m @ rest) = Some (JNumber (int m), rest)"
proof -
  obtain c cs where eq: "show_nat m = c # cs" and c: "is_digit c"
    using show_nat_cons by blast
  have tw: "takeWhile is_digit (show_nat m @ rest) = show_nat m"
    and dw: "dropWhile is_digit (show_nat m @ rest) = rest"
    using takeWhile_digits [OF show_nat_digits delim_not_digit [OF assms]] by simp_all
  have lead: "\<not> (hd (show_nat m) = CHR ''0'' \<and> length (show_nat m) \<noteq> 1)"
    using hd_show_nat [of m] show_nat_0 by (cases "m = 0") auto
  have "hd (show_nat m @ rest) \<noteq> CHR ''-''"
    using eq c by (simp add: is_digit_not_minus)
  then show ?thesis
    using tw dw lead delim_not_fraction [OF assms] show_nat_nonempty [of m]
    by (simp add: parse_number_def Let_def digits_val_show_nat)
qed

lemma parse_number_show_int:
  assumes "delim rest"
  shows "parse_number (show_int n @ rest) = Some (JNumber n, rest)"
proof (cases "n < 0")
  case False
  then show ?thesis
    using parse_number_show_nat [OF assms, of "nat n"] by (simp add: show_int_def)
next
  case True
  let ?m = "nat (- n)"
  have tw: "takeWhile is_digit (show_nat ?m @ rest) = show_nat ?m"
    and dw: "dropWhile is_digit (show_nat ?m @ rest) = rest"
    using takeWhile_digits [OF show_nat_digits delim_not_digit [OF assms]] by simp_all
  have lead: "hd (show_nat ?m) \<noteq> CHR ''0''"
    using True by (intro hd_show_nat) simp
  show ?thesis
    using True tw dw lead delim_not_fraction [OF assms] show_nat_nonempty [of ?m]
    by (simp add: parse_number_def Let_def digits_val_show_nat show_int_def)
qed

lemma show_int_cons: "\<exists>c cs. show_int n = c # cs \<and> (c = CHR ''-'' \<or> is_digit c)"
  using show_nat_cons [of "nat n"] by (auto simp: show_int_def)

lemma parse_value_number:
  assumes "c = CHR ''-'' \<or> is_digit c"
  shows "parse_value (Suc f) (c # cs) = parse_number (c # cs)"
proof -
  have "\<not> is_ws c" "c \<noteq> CHR ''{''" "c \<noteq> CHR ''[''" "c \<noteq> CHR 0x22"
    "c \<noteq> CHR ''n''" "c \<noteq> CHR ''t''" "c \<noteq> CHR ''f''"
    using assms by (auto simp: is_ws_def is_digit_def)
  then show ?thesis by (simp add: skip_ws_Cons)
qed

lemma parse_value_show_int:
  assumes "delim rest"
  shows "parse_value (Suc f) (show_int n @ rest) = Some (JNumber n, rest)"
proof -
  obtain c cs where eq: "show_int n = c # cs" and c: "c = CHR ''-'' \<or> is_digit c"
    using show_int_cons by blast
  have "parse_value (Suc f) (show_int n @ rest) = parse_number (show_int n @ rest)"
    using parse_value_number [OF c, of f "cs @ rest"] eq by simp
  then show ?thesis by (simp add: parse_number_show_int [OF assms])
qed

lemma parse_value_string:
  "parse_value (Suc f) (QuoteJSONString s @ rest) = Some (JString s, rest)"
  by (simp add: QuoteJSONString_def skip_ws_Cons is_ws_def parse_chars_quoted)

lemma stringify_object:
  "JSON_stringify (JObject kvs) = CHR ''{'' # commas (map member_text kvs) @ [CHR ''}'']"
proof -
  have "member_text = (\<lambda>kv. QuoteJSONString (fst kv) @ CHR '':'' # JSON_stringify (snd kv))"
    by (simp add: fun_eq_iff member_text_def)
  then show ?thesis by (simp add: comp_def case_prod_beta)
qed

lemma member_text_pair:
  "member_text (k, v) = CHR 0x22 # concat (map quote_char k) @ CHR 0x22 # CHR '':'' # JSON_stringify v"
  by (simp add: member_text_def QuoteJSONString_def)

lemma stringify_head:
  "\<exists>c cs. JSON_stringify v = c # cs \<and> \<not> is_ws c \<and> c \<noteq> CHR '']''"
proof (cases v)
  case (JNumber n)
  then show ?thesis
    using show_int_cons [of n] by (auto simp: is_ws_def is_digit_def)
qed (auto simp: is_ws_def QuoteJSONString_def)

lemma commas_head:
  assumes "xs \<noteq> []" "hd xs = c # cs"
  shows "\<exists>cs'. commas xs = c # cs'"
  using assms by (cases xs rule: commas.cases) auto

lemma define_properties:
  "distinct (map fst (acc @ kvs)) \<Longrightarrow> foldl define_property acc kvs = acc @ kvs"
proof (induction kvs arbitrary: acc)
  case Nil
  then show ?case by simp
next
  case (Cons kv kvs)
  then have "fst kv \<notin> fst ` set acc" by auto
  then have "define_property acc kv = acc @ [kv]" by (simp add: define_property_def)
  moreover have "foldl define_property (acc @ [kv]) kvs = (acc @ [kv]) @ kvs"
    using Cons.prems by (intro Cons.IH) simp
  ultimately show ?case by simp
qed

lemma parse_elements_commas:
  assumes "\<And>v f rest. v \<in> set vs \<Longrightarrow> fuel v \<le> f \<Longrightarrow> delim rest \<Longrightarrow>
             parse_value f (JSON_stringify v @ rest) = Some (v, rest)"
    and "vs \<noteq> []"
    and "sum_list (map (\<lambda>v. Suc (fuel v)) vs) \<le> f"
  shows "parse_elements f (commas (map JSON_stringify vs) @ CHR '']'' # rest) = Some (vs, rest)"
  using assms
proof (induction vs arbitrary: f)
  case Nil
  then show ?case by simp
next
  case (Cons v vs)
  from Cons.prems(3) obtain f' where f: "f = Suc f'" and fv: "fuel v \<le> f'"
    and fvs: "sum_list (map (\<lambda>v. Suc (fuel v)) vs) \<le> f'"
    by (cases f) auto
  show ?case
  proof (cases vs)
    case Nil
    have "parse_value f' (JSON_stringify v @ CHR '']'' # rest) = Some (v, CHR '']'' # rest)"
      using fv by (intro Cons.prems(1)) (simp_all add: delim_def)
    then show ?thesis
      by (simp add: f Nil skip_ws_Cons is_ws_def)
  next
    case (Cons w ws)
    let ?tail = "commas (map JSON_stringify vs) @ CHR '']'' # rest"
    have "parse_value f' (JSON_stringify v @ CHR '','' # ?tail) = Some (v, CHR '','' # ?tail)"
      using fv by (intro Cons.prems(1)) (simp_all add: delim_def)
    moreover have "parse_elements f' ?tail = Some (vs, rest)"
      using Cons.prems(1) fvs Cons by (intro Cons.IH) simp_all
    ultimately show ?thesis
      by (simp add: f Cons skip_ws_Cons is_ws_def)
  qed
qed

lemma parse_members_commas:
  assumes "\<And>kv f rest. kv \<in> set kvs \<Longrightarrow> fuel (snd kv) \<le> f \<Longrightarrow> delim rest \<Longrightarrow>
             parse_value f (JSON_stringify (snd kv) @ rest) = Some (snd kv, rest)"
    and "kvs \<noteq> []"
    and "sum_list (map (\<lambda>kv. Suc (fuel (snd kv))) kvs) \<le> f"
  shows "parse_members f (commas (map member_text kvs) @ CHR ''}'' # rest) = Some (kvs, rest)"
  using assms
proof (induction kvs arbitrary: f)
  case Nil
  then show ?case by simp
next
  case (Cons kv kvs)
  from Cons.prems(3) obtain f' where f: "f = Suc f'" and fv: "fuel (snd kv) \<le> f'"
    and fvs: "sum_list (map (\<lambda>kv. Suc (fuel (snd kv))) kvs) \<le> f'"
    by (cases f) auto
  obtain k v where kv: "kv = (k, v)" by (cases kv)
  have key: "\<And>t. parse_chars (concat (map quote_char k) @ CHR 0x22 # t) = Some (k, t)"
    by (rule parse_chars_quoted)
  show ?case
  proof (cases kvs)
    case Nil
    have "parse_value f' (JSON_stringify v @ CHR ''}'' # rest) = Some (v, CHR ''}'' # rest)"
      using fv Cons.prems(1) [of kv f' "CHR ''}'' # rest"] by (simp add: delim_def kv)
    then show ?thesis
      by (simp add: f Nil kv member_text_pair skip_ws_Cons is_ws_def key)
  next
    case (Cons w ws)
    let ?tail = "commas (map member_text kvs) @ CHR ''}'' # rest"
    have "parse_value f' (JSON_stringify v @ CHR '','' # ?tail) = Some (v, CHR '','' # ?tail)"
      using fv Cons.prems(1) [of kv f' "CHR '','' # ?tail"] by (simp add: delim_def kv)
    moreover have "parse_members f' ?tail = Some (kvs, rest)"
      using Cons.prems(1) fvs Cons by (intro Cons.IH) simp_all
    ultimately show ?thesis
      by (simp add: f Cons kv member_text_pair skip_ws_Cons is_ws_def key)
  qed
qed

lemma parse_value_stringify:
  "json_safe v \<Longrightarrow> fuel v \<le> f \<Longrightarrow> delim rest \<Longrightarrow>
     parse_value f (JSON_stringify v @ rest) = Some (v, rest)"
proof (induction v arbitrary: f rest)
  case JNull
  then obtain f' where "f = Suc f'" by (cases f) auto
  then show ?case by (simp add: skip_ws_Cons is_ws_def parse_literal_def)
next
  case (JBool b)
  then obtain f' where "f = Suc f'" by (cases f) auto
  then show ?case by (simp add: skip_ws_Cons is_ws_def parse_literal_def)
next
  case (JNumber n)
  then obtain f' where "f = Suc f'" by (cases f) auto
  with JNumber show ?case by (simp add: parse_value_show_int del: parse_value.simps)
next
  case (JString s)
  then obtain f' where "f = Suc f'" by (cases f) auto
  then show ?case by (simp add: parse_value_string del: parse_value.simps)
next
  case (JArray vs)
  then obtain f' where f: "f = Suc f'" and fvs: "sum_list (map (\<lambda>v. Suc (fuel v)) vs) \<le> f'"
    by (cases f) auto
  show ?case
  proof (cases vs)
    case Nil
    then show ?thesis by (simp add: f skip_ws_Cons is_ws_def)
  next
    case (Cons w ws)
    let ?body = "commas (map JSON_stringify vs) @ CHR '']'' # rest"
    obtain c cs where hd: "JSON_stringify w = c # cs" and c: "\<not> is_ws c" "c \<noteq> CHR '']''"
      using stringify_head by blast
    then obtain cs' where body: "?body = c # cs'"
      using commas_head [of "map JSON_stringify vs" c cs] Cons by auto
    have "parse_elements f' ?body = Some (vs, rest)"
    proof (rule parse_elements_commas)
      fix v g r
      assume "v \<in> set vs" "fuel v \<le> g" "delim r"
      with JArray.prems(1) show "parse_value g (JSON_stringify v @ r) = Some (v, r)"
        by (intro JArray.IH) (simp_all add: list_all_iff)
    qed (use fvs Cons in simp_all)
    then have "parse_elements f' (c # cs') = Some (vs, rest)"
      by (simp only: body)
    moreover have "JSON_stringify (JArray vs) @ rest = CHR ''['' # c # cs'"
      using body by simp
    ultimately show ?thesis
      using c by (simp add: f skip_ws_Cons is_ws_def)
  qed
next
  case (JObject kvs)
  then obtain f' where f: "f = Suc f'"
    and fvs: "sum_list (map (\<lambda>kv. Suc (fuel (snd kv))) kvs) \<le> f'"
    by (cases f) auto
  from JObject.prems have keys: "distinct (map fst kvs)" by simp
  show ?case
  proof (cases kvs)
    case Nil
    then show ?thesis by (simp add: f skip_ws_Cons is_ws_def)
  next
    case (Cons w ws)
    let ?body = "commas (map member_text kvs) @ CHR ''}'' # rest"
    obtain cs' where body: "?body = CHR 0x22 # cs'"
      using commas_head [of "map member_text kvs" "CHR 0x22"] Cons
      by (auto simp: member_text_def QuoteJSONString_def)
    have "parse_members f' ?body = Some (kvs, rest)"
    proof (rule parse_members_commas)
      fix kv g r
      assume kv: "kv \<in> set kvs" and "fuel (snd kv) \<le> g" "delim r"
      moreover have "snd kv \<in> Basic_BNFs.snds kv"
        by (rule snds.intros)
      ultimately show "parse_value g (JSON_stringify (snd kv) @ r) = Some (snd kv, r)"
        using JObject.prems(1) by (intro JObject.IH [of kv]) (simp_all add: list_all_iff)
    qed (use fvs Cons in simp_all)
    then have "parse_members f' (CHR 0x22 # cs') = Some (kvs, rest)"
      by (simp only: body)
    moreover have "JSON_stringify (JObject kvs) @ rest = CHR ''{'' # CHR 0x22 # cs'"
      using body by (simp only: stringify_object) simp
    moreover have "foldl define_property [] kvs = kvs"
      using define_properties [of "[]" kvs] keys by simp
    ultimately show ?thesis
      by (simp add: f skip_ws_Cons is_ws_def del: JSON_stringify.simps)
  qed
qed simp_all

lemma length_commas:
  "xs \<noteq> [] \<Longrightarrow> Suc (length (commas xs)) = sum_list (map (\<lambda>x. Suc (length x)) xs)"
  by (induction xs rule: commas.induct) simp_all

lemma fuel_le_length: "fuel v \<le> length (JSON_stringify v)"
proof (induction v)
  case (JNumber n)
  then show ?case
    using show_int_cons [of n] by auto
next
  case (JArray vs)
  show ?case
  proof (cases "vs = []")
    case False
    have "sum_list (map (\<lambda>v. Suc (fuel v)) vs) \<le> sum_list (map (\<lambda>v. Suc (length (JSON_stringify v))) vs)"
      using JArray.IH by (intro sum_list_mono) simp
    also have "\<dots> = Suc (length (commas (map JSON_stringify vs)))"
      using False by (simp add: length_commas comp_def)
    finally show ?thesis by simp
  qed simp
next
  case (JObject kvs)
  show ?case
  proof (cases "kvs = []")
    case False
    have "sum_list (map (\<lambda>kv. Suc (fuel (snd kv))) kvs) \<le> sum_list (map (\<lambda>kv. Suc (length (member_text kv))) kvs)"
    proof (rule sum_list_mono)
      fix kv assume kv: "kv \<in> set kvs"
      have "snd kv \<in> Basic_BNFs.snds kv" by (rule snds.intros)
      with kv have "fuel (snd kv) \<le> length (JSON_stringify (snd kv))"
        by (rule JObject.IH)
      then show "Suc (fuel (snd kv)) \<le> Suc (length (member_text kv))"
        by (simp add: member_text_def)
    qed
    also have "\<dots> = Suc (length (commas (map member_text kvs)))"
      using False by (simp add: length_commas comp_def)
    finally show ?thesis by (simp only: stringify_object fuel.simps) simp
  qed simp
qed (simp_all add: QuoteJSONString_def)

theorem JSON_roundtrip: "json_safe v \<Longrightarrow> JSON_parse (JSON_stringify v) = Some v"
proof -
  assume safe: "json_safe v"
  have "fuel v \<le> 2 * length (JSON_stringify v) + 2"
    using fuel_le_length [of v] by simp
  then have "parse_value (2 * length (JSON_stringify v) + 2) (JSON_stringify v @ []) = Some (v, [])"
    using safe by (intro parse_value_stringify) (simp_all add: delim_def)
  then show ?thesis by (simp add: JSON_parse_def skip_ws_def)
qed

subsection \<open>The fuel of the parser is never what stops it\<close>

text \<open>
  The parser recurses on a fuel argument, and \<open>JSON_parse\<close> gives it \<open>2 * length s + 2\<close>. That is
  always enough: more fuel never changes a result (\<open>parse_fuel_mono\<close>), and a parse that
  succeeds with any fuel succeeds with as much fuel as it reads characters
  (\<open>parse_fuel_bound\<close>). So \<open>JSON_parse\<close> accepts every text that the grammar accepts with
  some fuel, and \<open>None\<close> always means a syntax error.
\<close>

lemma length_skip_ws: "length (skip_ws s) \<le> length s"
  by (simp add: skip_ws_def length_dropWhile_le)

lemma cons_char_Some:
  "cons_char c r = Some (str, rest) \<Longrightarrow> \<exists>str'. r = Some (str', rest) \<and> str = c # str'"
  by (cases r) (auto simp: cons_char_def)

lemma parse_chars_shorter: "parse_chars cs = Some (str, rest) \<Longrightarrow> length rest < length cs"
proof (induction "length cs" arbitrary: cs str rule: less_induct)
  case less
  note IH = less.hyps
  from less.prems obtain c cs0 where cs: "cs = c # cs0" by (cases cs) auto
  show ?case
  proof (cases "c = CHR 0x22")
    case True
    with less.prems cs show ?thesis by simp
  next
    case nq: False
    show ?thesis
    proof (cases "c = CHR 0x5C")
      case False
      with nq less.prems cs have "cons_char c (parse_chars cs0) = Some (str, rest)"
        by (simp split: if_splits)
      from cons_char_Some [OF this] obtain str' where "parse_chars cs0 = Some (str', rest)"
        by blast
      from IH [OF _ this] cs show ?thesis by simp
    next
      case bs: True
      with nq less.prems cs obtain e cs1 where cs0: "cs0 = e # cs1"
        by (cases cs0) auto
      show ?thesis
      proof (cases "e = CHR ''u''")
        case False
        with nq bs cs cs0 less.prems obtain u
          where "cons_char u (parse_chars cs1) = Some (str, rest)"
          by (auto split: option.splits)
        from cons_char_Some [OF this] obtain str' where "parse_chars cs1 = Some (str', rest)"
          by blast
        from IH [OF _ this] cs cs0 show ?thesis by simp
      next
        case True
        with nq bs cs cs0 less.prems obtain h1 h2 h3 h4 cs2 u
          where cs1: "cs1 = h1 # h2 # h3 # h4 # cs2"
            and "cons_char u (parse_chars cs2) = Some (str, rest)"
          by (auto split: option.splits list.splits)
        from cons_char_Some [OF this(2)] obtain str' where "parse_chars cs2 = Some (str', rest)"
          by blast
        from IH [OF _ this] cs cs0 cs1 show ?thesis by simp
      qed
    qed
  qed
qed

lemma parse_literal_shorter:
  "parse_literal w v s = Some (x, rest) \<Longrightarrow> w \<noteq> [] \<Longrightarrow> length rest < length s"
proof -
  assume a: "parse_literal w v s = Some (x, rest)" and w: "w \<noteq> []"
  then have "take (length w) s = w" and rest: "rest = drop (length w) s"
    by (auto simp: parse_literal_def split: if_splits)
  then have "length (take (length w) s) = length w" by simp
  then have "length w \<le> length s" by simp
  with w rest show ?thesis by (cases w) auto
qed

lemma parse_number_shorter: "parse_number s = Some (x, rest) \<Longrightarrow> length rest < length s"
proof -
  assume a: "parse_number s = Some (x, rest)"
  define body where "body = (if s \<noteq> [] \<and> hd s = CHR ''-'' then tl s else s)"
  from a have ds: "takeWhile is_digit body \<noteq> []" and rest: "rest = dropWhile is_digit body"
    by (auto simp: parse_number_def Let_def body_def split: if_splits)
  have "length (takeWhile is_digit body) + length (dropWhile is_digit body) = length body"
    by (metis length_append takeWhile_dropWhile_id)
  with ds rest have "length rest < length body" by (cases "takeWhile is_digit body") auto
  moreover have "length body \<le> length s" by (simp add: body_def)
  ultimately show ?thesis by simp
qed


lemma parse_value_objectI:
  assumes "skip_ws s = CHR ''{'' # cs" "skip_ws cs = d # ds" "d \<noteq> CHR ''}''"
    and "parse_members g (d # ds) = Some (kvs, rest)"
  shows "parse_value (Suc g) s = Some (JObject (foldl define_property [] kvs), rest)"
  using assms by simp

lemma parse_value_arrayI:
  assumes "skip_ws s = CHR ''['' # cs" "skip_ws cs = d # ds" "d \<noteq> CHR '']''"
    and "parse_elements g (d # ds) = Some (vs, rest)"
  shows "parse_value (Suc g) s = Some (JArray vs, rest)"
  using assms by simp

lemma parse_value_SucE:
  assumes a: "parse_value (Suc f) s = Some r"
  obtains (flat) "\<And>g. parse_value (Suc g) s = Some r" "length (snd r) < length s"
  | (object) cs d ds kvs rest where "skip_ws s = CHR ''{'' # cs" "skip_ws cs = d # ds"
      "d \<noteq> CHR ''}''" "parse_members f (d # ds) = Some (kvs, rest)"
      "r = (JObject (foldl define_property [] kvs), rest)"
  | (array) cs d ds vs rest where "skip_ws s = CHR ''['' # cs" "skip_ws cs = d # ds"
      "d \<noteq> CHR '']''" "parse_elements f (d # ds) = Some (vs, rest)"
      "r = (JArray vs, rest)"
proof (cases "skip_ws s")
  case Nil
  with a show ?thesis by simp
next
  case (Cons c cs)
  note s = Cons
  have len: "length cs < length s"
    using length_skip_ws [of s] s by simp
  show ?thesis
  proof (cases "c = CHR ''{'' \<or> c = CHR ''[''")
    case False
    then have c: "c \<noteq> CHR ''{''" "c \<noteq> CHR ''[''" by simp_all
    have eq: "parse_value (Suc g) s =
        (if c = CHR 0x22 then map_option (\<lambda>(str, rest). (JString str, rest)) (parse_chars cs)
          else if c = CHR ''n'' then parse_literal ''null'' JNull (c # cs)
          else if c = CHR ''t'' then parse_literal ''true'' (JBool True) (c # cs)
          else if c = CHR ''f'' then parse_literal ''false'' (JBool False) (c # cs)
          else parse_number (c # cs))" for g
      using s c by simp
    obtain x rest where r: "r = (x, rest)" by (cases r)
    have "length rest < length (c # cs)"
    proof (cases "c = CHR 0x22")
      case True
      with a [unfolded eq] r obtain str where "parse_chars cs = Some (str, rest)"
        by (auto simp: case_prod_beta simp del: parse_value.simps)
      from parse_chars_shorter [OF this] show ?thesis by simp
    next
      case False
      with a [unfolded eq] r consider
        "parse_literal ''null'' JNull (c # cs) = Some (x, rest)"
        | "parse_literal ''true'' (JBool True) (c # cs) = Some (x, rest)"
        | "parse_literal ''false'' (JBool False) (c # cs) = Some (x, rest)"
        | "parse_number (c # cs) = Some (x, rest)"
        by (auto split: if_splits simp del: parse_value.simps)
      then show ?thesis
      proof cases
        case 4
        then show ?thesis by (rule parse_number_shorter)
      qed (erule parse_literal_shorter, simp)+
    qed
    then have "length (snd r) < length (c # cs)" by (simp add: r)
    with len have "length (snd r) < length s" by simp
    moreover have "parse_value (Suc g) s = Some r" for g
      using a by (simp only: eq [of g] eq [of f])
    ultimately show ?thesis by (rule flat [rotated])
  next
    case True
    show ?thesis
    proof (cases "skip_ws cs")
      case Nil
      with a s True show ?thesis by auto
    next
      case (Cons d ds)
      have len2: "length ds < length cs"
        using length_skip_ws [of cs] Cons by simp
      show ?thesis
      proof (cases "c = CHR ''{''")
        case True
        show ?thesis
        proof (cases "d = CHR ''}''")
          case True
          with a s Cons \<open>c = CHR ''{''\<close> have r: "r = (JObject [], ds)" by simp
          have "parse_value (Suc g) s = Some r" for g
            using s Cons \<open>c = CHR ''{''\<close> True r by simp
          moreover have "length (snd r) < length s" using r len len2 by simp
          ultimately show ?thesis by (rule flat)
        next
          case False
          with a s Cons True obtain x where "parse_members f (d # ds) = Some x"
            and "r = (JObject (foldl define_property [] (fst x)), snd x)"
            by (auto simp: case_prod_beta)
          with s Cons True False show ?thesis
            by (intro object [of cs d ds "fst x" "snd x"]) simp_all
        qed
      next
        case False
        with \<open>c = CHR ''{'' \<or> c = CHR ''[''\<close> have c: "c = CHR ''[''" by simp
        show ?thesis
        proof (cases "d = CHR '']''")
          case True
          with a s Cons c have r: "r = (JArray [], ds)" by simp
          have "parse_value (Suc g) s = Some r" for g
            using s Cons c True r by simp
          moreover have "length (snd r) < length s" using r len len2 by simp
          ultimately show ?thesis by (rule flat)
        next
          case False
          with a s Cons c obtain x where "parse_elements f (d # ds) = Some x"
            and "r = (JArray (fst x), snd x)"
            by (auto simp: case_prod_beta)
          with s Cons c False show ?thesis
            by (intro array [of cs d ds "fst x" "snd x"]) simp_all
        qed
      qed
    qed
  qed
qed


lemma parse_elements_SucE:
  assumes a: "parse_elements (Suc f) s = Some r"
  obtains (last) v rest1 cs where "parse_value f s = Some (v, rest1)"
      "skip_ws rest1 = CHR '']'' # cs" "r = ([v], cs)"
  | (more) v rest1 cs vs rest where "parse_value f s = Some (v, rest1)"
      "skip_ws rest1 = CHR '','' # cs" "parse_elements f cs = Some (vs, rest)"
      "r = (v # vs, rest)"
proof -
  from a obtain v rest1 where v: "parse_value f s = Some (v, rest1)"
    by (auto split: option.splits simp del: parse_value.simps)
  with a obtain c cs where ws: "skip_ws rest1 = c # cs"
    by (cases "skip_ws rest1") (auto simp del: parse_value.simps)
  show ?thesis
  proof (cases "c = CHR '',''")
    case True
    with a [unfolded parse_elements.simps(2)] v ws
    obtain x where "parse_elements f cs = Some x" "r = (v # fst x, snd x)"
      by (auto simp: case_prod_beta simp del: parse_value.simps parse_elements.simps)
    with v ws True show ?thesis by (intro more [of v rest1 cs "fst x" "snd x"]) simp_all
  next
    case False
    with a [unfolded parse_elements.simps(2)] v ws have "c = CHR '']''" "r = ([v], cs)"
      by (auto split: if_splits simp del: parse_value.simps parse_elements.simps)
    with v ws show ?thesis by (intro last [of v rest1 cs]) simp_all
  qed
qed

lemma parse_members_SucE:
  assumes a: "parse_members (Suc f) s = Some r"
  obtains (last) cs k rest0 rest1 v rest2 rest3 where "skip_ws s = CHR 0x22 # cs"
      "parse_chars cs = Some (k, rest0)" "skip_ws rest0 = CHR '':'' # rest1"
      "parse_value f rest1 = Some (v, rest2)" "skip_ws rest2 = CHR ''}'' # rest3"
      "r = ([(k, v)], rest3)"
  | (more) cs k rest0 rest1 v rest2 rest3 kvs rest where "skip_ws s = CHR 0x22 # cs"
      "parse_chars cs = Some (k, rest0)" "skip_ws rest0 = CHR '':'' # rest1"
      "parse_value f rest1 = Some (v, rest2)" "skip_ws rest2 = CHR '','' # rest3"
      "parse_members f rest3 = Some (kvs, rest)" "r = ((k, v) # kvs, rest)"
proof -
  from a obtain cs where s: "skip_ws s = CHR 0x22 # cs"
    by (cases "skip_ws s") (auto split: if_splits simp del: parse_value.simps)
  with a obtain k rest0 where k: "parse_chars cs = Some (k, rest0)"
    by (auto split: option.splits simp del: parse_value.simps)
  with a s obtain rest1 where c: "skip_ws rest0 = CHR '':'' # rest1"
    by (cases "skip_ws rest0") (auto split: if_splits simp del: parse_value.simps)
  with a s k obtain v rest2 where v: "parse_value f rest1 = Some (v, rest2)"
    by (auto split: option.splits simp del: parse_value.simps)
  with a s k c obtain c2 rest3 where ws: "skip_ws rest2 = c2 # rest3"
    by (cases "skip_ws rest2") (auto simp del: parse_value.simps)
  show ?thesis
  proof (cases "c2 = CHR '',''")
    case True
    with a [unfolded parse_members.simps(2)] s k c v ws
    obtain x where "parse_members f rest3 = Some x" "r = ((k, v) # fst x, snd x)"
      by (auto simp: case_prod_beta simp del: parse_value.simps parse_members.simps)
    with s k c v ws True show ?thesis
      by (intro more [of cs k rest0 rest1 v rest2 rest3 "fst x" "snd x"]) simp_all
  next
    case False
    with a [unfolded parse_members.simps(2)] s k c v ws have "c2 = CHR ''}''" "r = ([(k, v)], rest3)"
      by (auto split: if_splits simp del: parse_value.simps parse_members.simps)
    with s k c v ws show ?thesis
      by (intro last [of cs k rest0 rest1 v rest2 rest3]) simp_all
  qed
qed

lemma parse_fuel_mono:
  "f \<le> g \<Longrightarrow>
     (parse_value f s = Some rv \<longrightarrow> parse_value g s = Some rv) \<and>
     (parse_elements f s = Some re \<longrightarrow> parse_elements g s = Some re) \<and>
     (parse_members f s = Some rm \<longrightarrow> parse_members g s = Some rm)"
proof (induction f arbitrary: g s rv re rm)
  case 0
  then show ?case by simp
next
  case (Suc f)
  then obtain g' where g: "g = Suc g'" and le: "f \<le> g'" by (cases g) auto
  note IH = Suc.IH [OF le]
  have "parse_value g s = Some rv" if a: "parse_value (Suc f) s = Some rv"
    using a
  proof (cases rule: parse_value_SucE)
    case flat
    then show ?thesis by (simp add: g del: parse_value.simps)
  next
    case (object cs d ds kvs rest)
    then show ?thesis
      using IH [of "d # ds" _ _ "(kvs, rest)"] by (simp add: g parse_value_objectI del: parse_value.simps)
  next
    case (array cs d ds vs rest)
    then show ?thesis
      using IH [of "d # ds" _ "(vs, rest)"] by (simp add: g parse_value_arrayI del: parse_value.simps)
  qed
  moreover have "parse_elements g s = Some re" if a: "parse_elements (Suc f) s = Some re"
    using a
  proof (cases rule: parse_elements_SucE)
    case (last v rest1 cs)
    then show ?thesis
      using IH [of s "(v, rest1)"] by (simp add: g del: parse_value.simps)
  next
    case (more v rest1 cs vs rest)
    then show ?thesis
      using IH [of s "(v, rest1)"] IH [of cs _ "(vs, rest)"]
      by (simp add: g del: parse_value.simps parse_elements.simps(2)) (simp del: parse_value.simps)
  qed
  moreover have "parse_members g s = Some rm" if a: "parse_members (Suc f) s = Some rm"
    using a
  proof (cases rule: parse_members_SucE)
    case (last cs k rest0 rest1 v rest2 rest3)
    then show ?thesis
      using IH [of rest1 "(v, rest2)"] by (simp add: g del: parse_value.simps)
  next
    case (more cs k rest0 rest1 v rest2 rest3 kvs rest)
    then show ?thesis
      using IH [of rest1 "(v, rest2)"] IH [of rest3 _ _ "(kvs, rest)"]
      by (simp add: g del: parse_value.simps parse_members.simps(2)) (simp del: parse_value.simps)
  qed
  ultimately show ?case by blast
qed

lemma parse_elements_lastI:
  "parse_value g s = Some (v, rest1) \<Longrightarrow> skip_ws rest1 = CHR '']'' # cs \<Longrightarrow>
     parse_elements (Suc g) s = Some ([v], cs)"
  by (simp del: parse_value.simps)

lemma parse_elements_moreI:
  "parse_value g s = Some (v, rest1) \<Longrightarrow> skip_ws rest1 = CHR '','' # cs \<Longrightarrow>
     parse_elements g cs = Some (vs, rest) \<Longrightarrow> parse_elements (Suc g) s = Some (v # vs, rest)"
  by (simp del: parse_value.simps)

lemma parse_members_lastI:
  "skip_ws s = CHR 0x22 # cs \<Longrightarrow> parse_chars cs = Some (k, rest0) \<Longrightarrow>
     skip_ws rest0 = CHR '':'' # rest1 \<Longrightarrow> parse_value g rest1 = Some (v, rest2) \<Longrightarrow>
     skip_ws rest2 = CHR ''}'' # rest3 \<Longrightarrow> parse_members (Suc g) s = Some ([(k, v)], rest3)"
  by (simp del: parse_value.simps)

lemma parse_members_moreI:
  "skip_ws s = CHR 0x22 # cs \<Longrightarrow> parse_chars cs = Some (k, rest0) \<Longrightarrow>
     skip_ws rest0 = CHR '':'' # rest1 \<Longrightarrow> parse_value g rest1 = Some (v, rest2) \<Longrightarrow>
     skip_ws rest2 = CHR '','' # rest3 \<Longrightarrow> parse_members g rest3 = Some (kvs, rest) \<Longrightarrow>
     parse_members (Suc g) s = Some ((k, v) # kvs, rest)"
  by (simp del: parse_value.simps)

lemma skip_ws_Cons_length: "skip_ws s = c # cs \<Longrightarrow> length cs < length s"
  using length_skip_ws [of s] by simp

lemma parse_fuel_bound:
  "(parse_value f s = Some (v, rest) \<longrightarrow>
      length rest < length s \<and> parse_value (length s - length rest) s = Some (v, rest)) \<and>
   (parse_elements f s = Some (vs, rest) \<longrightarrow>
      length rest < length s \<and> parse_elements (length s - length rest) s = Some (vs, rest)) \<and>
   (parse_members f s = Some (kvs, rest) \<longrightarrow>
      length rest < length s \<and> parse_members (length s - length rest) s = Some (kvs, rest))"
proof (induction f arbitrary: s v vs kvs rest)
  case 0
  then show ?case by simp
next
  case (Suc f)
  note IHv = Suc.IH [THEN conjunct1, rule_format]
  note IHe = Suc.IH [THEN conjunct2, THEN conjunct1, rule_format]
  note IHm = Suc.IH [THEN conjunct2, THEN conjunct2, rule_format]
  note monov = parse_fuel_mono [THEN conjunct1, rule_format]
  note monoe = parse_fuel_mono [THEN conjunct2, THEN conjunct1, rule_format]
  note monom = parse_fuel_mono [THEN conjunct2, THEN conjunct2, rule_format]
  have val: "length rest < length s \<and> parse_value (length s - length rest) s = Some (v, rest)"
    if a: "parse_value (Suc f) s = Some (v, rest)"
    using a
  proof (cases rule: parse_value_SucE)
    case flat
    from flat(2) obtain g where "length s - length rest = Suc g"
      by (cases "length s - length rest") auto
    with flat show ?thesis by (simp del: parse_value.simps)
  next
    case (object cs d ds kvs' rest')
    then have rest': "rest' = rest" and v: "v = JObject (foldl define_property [] kvs')" by simp_all
    from IHm [OF object(4)] have len: "length rest' < length (d # ds)"
      and run: "parse_members (length (d # ds) - length rest') (d # ds) = Some (kvs', rest')"
      by simp_all
    have l1: "length cs < length s" and l2: "length ds < length cs"
      using object(1,2) by (auto dest: skip_ws_Cons_length)
    with len obtain g where g: "length s - length rest' = Suc g"
      and le: "length (d # ds) - length rest' \<le> g"
      by (cases "length s - length rest'") auto
    from monom [OF le run] have "parse_members g (d # ds) = Some (kvs', rest')" .
    from parse_value_objectI [OF object(1,2,3) this] g len l1 l2 rest' v show ?thesis
      by (simp del: parse_value.simps)
  next
    case (array cs d ds vs' rest')
    then have rest': "rest' = rest" and v: "v = JArray vs'" by simp_all
    from IHe [OF array(4)] have len: "length rest' < length (d # ds)"
      and run: "parse_elements (length (d # ds) - length rest') (d # ds) = Some (vs', rest')"
      by simp_all
    have l1: "length cs < length s" and l2: "length ds < length cs"
      using array(1,2) by (auto dest: skip_ws_Cons_length)
    with len obtain g where g: "length s - length rest' = Suc g"
      and le: "length (d # ds) - length rest' \<le> g"
      by (cases "length s - length rest'") auto
    from monoe [OF le run] have "parse_elements g (d # ds) = Some (vs', rest')" .
    from parse_value_arrayI [OF array(1,2,3) this] g len l1 l2 rest' v show ?thesis
      by (simp del: parse_value.simps)
  qed
  have elements: "length rest < length s \<and> parse_elements (length s - length rest) s = Some (vs, rest)"
    if a: "parse_elements (Suc f) s = Some (vs, rest)"
    using a
  proof (cases rule: parse_elements_SucE)
    case (last v1 rest1 cs)
    from IHv [OF last(1)] have len: "length rest1 < length s"
      and run: "parse_value (length s - length rest1) s = Some (v1, rest1)" by simp_all
    have l1: "length cs < length rest1" using last(2) by (rule skip_ws_Cons_length)
    with len obtain g where g: "length s - length cs = Suc g" and le: "length s - length rest1 \<le> g"
      by (cases "length s - length cs") auto
    from parse_elements_lastI [OF monov [OF le run] last(2)] g last(3) len l1 show ?thesis
      by (simp del: parse_value.simps parse_elements.simps)
  next
    case (more v1 rest1 cs vs' rest')
    from IHv [OF more(1)] have len: "length rest1 < length s"
      and run: "parse_value (length s - length rest1) s = Some (v1, rest1)" by simp_all
    from IHe [OF more(3)] have len2: "length rest' < length cs"
      and run2: "parse_elements (length cs - length rest') cs = Some (vs', rest')" by simp_all
    have l1: "length cs < length rest1" using more(2) by (rule skip_ws_Cons_length)
    with len len2 obtain g where g: "length s - length rest' = Suc g"
      and le: "length s - length rest1 \<le> g" and le2: "length cs - length rest' \<le> g"
      by (cases "length s - length rest'") auto
    from parse_elements_moreI [OF monov [OF le run] more(2) monoe [OF le2 run2]]
      g more(4) len len2 l1 show ?thesis
      by (simp del: parse_value.simps parse_elements.simps)
  qed
  have members: "length rest < length s \<and> parse_members (length s - length rest) s = Some (kvs, rest)"
    if a: "parse_members (Suc f) s = Some (kvs, rest)"
    using a
  proof (cases rule: parse_members_SucE)
    case (last cs k rest0 rest1 v1 rest2 rest3)
    from IHv [OF last(4)] have len: "length rest2 < length rest1"
      and run: "parse_value (length rest1 - length rest2) rest1 = Some (v1, rest2)" by simp_all
    have l: "length cs < length s" "length rest0 < length cs" "length rest1 < length rest0"
      "length rest3 < length rest2"
      using last(1,3,5) parse_chars_shorter [OF last(2)] by (auto dest: skip_ws_Cons_length)
    with len obtain g where g: "length s - length rest3 = Suc g"
      and le: "length rest1 - length rest2 \<le> g"
      by (cases "length s - length rest3") auto
    from parse_members_lastI [OF last(1,2,3) monov [OF le run] last(5)] g last(6) len l
    show ?thesis by (simp del: parse_value.simps parse_members.simps)
  next
    case (more cs k rest0 rest1 v1 rest2 rest3 kvs' rest')
    from IHv [OF more(4)] have len: "length rest2 < length rest1"
      and run: "parse_value (length rest1 - length rest2) rest1 = Some (v1, rest2)" by simp_all
    from IHm [OF more(6)] have len2: "length rest' < length rest3"
      and run2: "parse_members (length rest3 - length rest') rest3 = Some (kvs', rest')" by simp_all
    have l: "length cs < length s" "length rest0 < length cs" "length rest1 < length rest0"
      "length rest3 < length rest2"
      using more(1,3,5) parse_chars_shorter [OF more(2)] by (auto dest: skip_ws_Cons_length)
    with len len2 obtain g where g: "length s - length rest' = Suc g"
      and le: "length rest1 - length rest2 \<le> g" and le2: "length rest3 - length rest' \<le> g"
      by (cases "length s - length rest'") auto
    from parse_members_moreI [OF more(1,2,3) monov [OF le run] more(5) monom [OF le2 run2]]
      g more(7) len len2 l
    show ?thesis by (simp del: parse_value.simps parse_members.simps)
  qed
  from val elements members show ?case by blast
qed

theorem JSON_parse_fuel_enough:
  assumes "parse_value f s = Some (v, rest)" and "skip_ws rest = []"
  shows "JSON_parse s = Some v"
proof -
  from parse_fuel_bound [THEN conjunct1, rule_format, OF assms(1)]
  have "parse_value (length s - length rest) s = Some (v, rest)" by simp
  moreover have "length s - length rest \<le> 2 * length s + 2" by simp
  ultimately have "parse_value (2 * length s + 2) s = Some (v, rest)"
    by (rule parse_fuel_mono [THEN conjunct1, rule_format, rotated])
  with assms(2) show ?thesis by (simp add: JSON_parse_def del: parse_value.simps)
qed

section \<open>Cache entries: write, read, expiry\<close>

lemma set_cache_Ready:
  "link r = Ready \<Longrightarrow>
     set_cache r k v ttl = (True, store r k (expiring r (JSON_stringify v) ttl))"
  by (simp add: set_cache_def getClient_def client_setEx_def)

lemma set_cache_down: "link r \<noteq> Ready \<Longrightarrow> set_cache r k v ttl = (False, r)"
  by (cases "link r") (simp_all add: set_cache_def getClient_def client_setEx_def)


lemma get_Ready:
  "link r = Ready \<Longrightarrow>
     get r k = (case keyspace r k of
                  None \<Rightarrow> JNull
                | Some e \<Rightarrow> (case JSON_parse (payload e) of None \<Rightarrow> JNull | Some v \<Rightarrow> v))"
proof -
  have "JSON_parse [] = None" by (simp add: JSON_parse_def skip_ws_def)
  then show "link r = Ready \<Longrightarrow> ?thesis"
    by (auto simp: get_def getClient_def client_get_def split: option.splits)
qed

lemma get_down: "link r \<noteq> Ready \<Longrightarrow> get r k = JNull"
  by (cases "link r") (simp_all add: get_def getClient_def client_get_def)


lemma get_at_once:
  assumes "link r = Ready" "0 < ttl"
  shows "get (snd (set_cache r k v ttl)) k =
           (case JSON_parse (JSON_stringify v) of None \<Rightarrow> JNull | Some w \<Rightarrow> w)"
  using assms
  by (simp add: set_cache_Ready get_Ready store_def expiring_def)





section \<open>The cached cart\<close>

lemma lines_cart_cart_lines: "lines_cart (cart_lines c) = c"
  by (induction c) (simp_all add: lines_cart_def cart_lines_def)

lemma json_safe_js_of_cart: "json_safe (js_of_cart c)"
  by (simp add: js_of_cart_def js_of_line_def list_all_iff)

lemma line_of_js_of_line: "line_of_js (js_of_line l) = Some l"
  by (simp add: line_of_js_def js_of_line_def)

lemma those_map_Some: "those (map (\<lambda>x. Some (f x)) xs) = Some (map f xs)"
  by (induction xs) simp_all

lemma cart_of_js_of_cart: "cart_of_js (js_of_cart c) = Some c"
proof -
  have "map line_of_js (map js_of_line c) = map (\<lambda>x. Some (id x)) c"
    by (simp add: line_of_js_of_line)
  then have "those (map line_of_js (map js_of_line c)) = Some (map id c)"
    by (simp only: those_map_Some)
  then show ?thesis by (simp add: cart_of_js_def js_of_cart_def)
qed

lemma stored_cart_down: "link r \<noteq> Ready \<Longrightarrow> stored_cart r u = None"
  by (simp add: stored_cart_def getCart_def get_down cart_of_js_def)

lemma stored_cart_absent: "keyspace r (''cart:'' @ u) = None \<Longrightarrow> stored_cart r u = None"
  by (cases "link r = Ready")
    (simp_all add: stored_cart_def getCart_def get_down get_Ready cart_of_js_def)


lemma setCart_down: "link r \<noteq> Ready \<Longrightarrow> setCart r u v = (False, r)"
  by (simp add: setCart_def set_cache_down)


lemma stored_cart_setCart:
  "link r = Ready \<Longrightarrow> stored_cart (snd (setCart r u (js_of_cart c))) u = Some c"
  using JSON_roundtrip [OF json_safe_js_of_cart, of c]
  by (simp add: stored_cart_def getCart_def setCart_def get_at_once cart_of_js_of_cart)

lemma deleteCart_Ready:
  "link r = Ready \<Longrightarrow> deleteCart r u = (True, store r (''cart:'' @ u) None)"
  by (simp add: deleteCart_def del_def getClient_def client_del_def)

lemma deleteCart_down: "link r \<noteq> Ready \<Longrightarrow> deleteCart r u = (False, r)"
  by (cases "link r") (simp_all add: deleteCart_def del_def getClient_def client_del_def)

lemma deleteCart_absent:
  "keyspace r (''cart:'' @ u) = None \<Longrightarrow> snd (deleteCart r u) = r"
  by (cases "link r = Ready") (simp_all add: deleteCart_Ready deleteCart_down store_def fun_upd_idem)

lemma stored_cart_deleteCart: "stored_cart (snd (deleteCart r u)) u = None"
proof (cases "link r = Ready")
  case True
  then show ?thesis by (simp add: deleteCart_Ready stored_cart_absent store_def)
next
  case False
  then show ?thesis by (simp add: deleteCart_down stored_cart_down)
qed

text \<open>
  \<open>findIndex\<close> finds the first line of the product; in terms of the association list
  it is \<open>map_of\<close>, and the routes' changes at that index are \<open>AList.update\<close> and
  \<open>remove1\<close>.
\<close>

lemma findIndex_None: "findIndex P xs = None \<longleftrightarrow> (\<forall>x \<in> set xs. \<not> P x)"
  by (induction xs) auto

lemma findIndex_Some:
  "findIndex P xs = Some i \<Longrightarrow> i < length xs \<and> P (xs ! i) \<and> (\<forall>j < i. \<not> P (xs ! j))"
proof (induction xs arbitrary: i)
  case Nil
  then show ?case by simp
next
  case (Cons x xs)
  show ?case
  proof (cases "P x")
    case True
    with Cons.prems show ?thesis by simp
  next
    case False
    with Cons.prems obtain k where k: "findIndex P xs = Some k" "i = Suc k" by auto
    from Cons.IH [OF k(1)] False k(2) show ?thesis
      by (auto simp: nth_Cons split: nat.splits)
  qed
qed

lemma line_quantity_None:
  "findIndex (\<lambda>item. product item = pid) c = None \<Longrightarrow> map_of (cart_lines c) pid = None"
  by (induction c) (auto simp: cart_lines_def split: if_splits)

lemma line_quantity_Some:
  "findIndex (\<lambda>item. product item = pid) c = Some i \<Longrightarrow>
     map_of (cart_lines c) pid = Some (quantity (c ! i))"
  by (induction c arbitrary: i) (auto simp: cart_lines_def split: if_splits)

lemma cart_lines_append:
  "findIndex (\<lambda>item. product item = pid) c = None \<Longrightarrow>
     cart_lines (c @ [\<lparr>product = pid, quantity = n\<rparr>]) = AList.update pid n (cart_lines c)"
  by (induction c) (auto simp: cart_lines_def split: if_splits)

lemma cart_lines_update:
  "findIndex (\<lambda>item. product item = pid) c = Some i \<Longrightarrow>
     cart_lines (c[i := (c ! i)\<lparr>quantity := n\<rparr>]) = AList.update pid n (cart_lines c)"
  by (induction c arbitrary: i) (auto simp: cart_lines_def split: if_splits)

lemma cart_lines_splice:
  "findIndex (\<lambda>item. product item = pid) c = Some i \<Longrightarrow>
     cart_lines (splice1 i c) = remove1 (pid, quantity (c ! i)) (cart_lines c)"
  by (induction c arbitrary: i) (auto simp: cart_lines_def splice1_def split: if_splits)

section \<open>Adding to the cart\<close>

lemma fst_save_cart: "fst (save_cart s u c) = Inr (itemCount c)"
  by (simp add: save_cart_def)


lemma stored_save_cart:
  "link (cache s) = Ready \<Longrightarrow> stored_cart (cache (snd (save_cart s u c))) u = Some c"
  by (simp add: save_cart_def stored_cart_setCart)

lemma stored_save_cart_down:
  "link (cache s) \<noteq> Ready \<Longrightarrow> snd (save_cart s u c) = s"
  by (simp add: save_cart_def setCart_down)

lemma cart_add_outcome:
  assumes "pid \<noteq> []"
  shows "cart_add s u pid (Some q) =
           (case products s pid of
              None \<Rightarrow> (Inl NotFound, s)
            | Some p \<Rightarrow>
                if \<not> isActive p then (Inl NotFound, s)
                else if stock p < q \<or> stock p < resulting_quantity (cart_or_empty (cache s) u) pid q
                  then (Inl InsufficientStock, s)
                else save_cart s u
                       (lines_cart (AList.update pid (resulting_quantity (cart_or_empty (cache s) u) pid q)
                          (cart_lines (cart_or_empty (cache s) u)))))"
proof (cases "products s pid")
  case None
  with assms show ?thesis by (simp add: cart_add_def)
next
  case (Some p)
  let ?c = "cart_or_empty (cache s) u"
  have c: "(case stored_cart (cache s) u of None \<Rightarrow> [] | Some c \<Rightarrow> c) = ?c"
    by (simp add: cart_or_empty_def)
  show ?thesis
  proof (cases "findIndex (\<lambda>item. product item = pid) ?c")
    case None
    have "resulting_quantity ?c pid q = q"
      by (simp add: resulting_quantity_def line_quantity_None [OF None])
    moreover have "lines_cart (AList.update pid q (cart_lines ?c)) = ?c @ [\<lparr>product = pid, quantity = q\<rparr>]"
      using cart_lines_append [OF None, of q] lines_cart_cart_lines by metis
    ultimately show ?thesis
      using assms Some None
      by (simp add: cart_add_def Let_def c [unfolded stored_cart_def])
  next
    case (Some i)
    let ?n = "quantity (?c ! i) + q"
    have "resulting_quantity ?c pid q = ?n"
      by (simp add: resulting_quantity_def line_quantity_Some [OF Some])
    moreover have "lines_cart (AList.update pid ?n (cart_lines ?c)) = ?c[i := (?c ! i)\<lparr>quantity := ?n\<rparr>]"
      using cart_lines_update [OF Some, of ?n] lines_cart_cart_lines by metis
    ultimately show ?thesis
      using assms \<open>products s pid = Some p\<close> Some
      by (simp add: cart_add_def Let_def c [unfolded stored_cart_def] not_less)
  qed
qed


lemma demo_products:
  "products (demo_shop n) ''p1'' = Some \<lparr>name = ''tea'', price = 10, stock = n, isActive = True, images = []\<rparr>"
  "products (demo_shop n) ''p2'' = Some \<lparr>name = ''cup'', price = 5, stock = 4, isActive = True, images = [''cup.png'']\<rparr>"
  "products (demo_shop n) ''p3'' = Some \<lparr>name = ''pot'', price = 30, stock = 1, isActive = False, images = []\<rparr>"
  "products (demo_shop n) ''p9'' = None"
  by (simp_all add: demo_shop_def)

lemma demo_cache: "cache (demo_shop n) = fresh_redis" "link fresh_redis = Ready"
  "stored_cart fresh_redis u = None"
  by (simp_all add: demo_shop_def fresh_redis_def stored_cart_absent)

lemma cart_or_empty_None: "stored_cart r u = None \<Longrightarrow> cart_or_empty r u = []"
  by (simp add: cart_or_empty_def)


lemma cart_add_first:
  assumes "0 \<le> n" "q \<le> n"
  shows "cart_add (demo_shop n) ''u'' ''p1'' (Some q) =
           save_cart (demo_shop n) ''u'' [\<lparr>product = ''p1'', quantity = q\<rparr>]"
  using assms
  by (simp add: cart_add_outcome demo_products demo_cache cart_or_empty_None
      resulting_quantity_def cart_lines_def lines_cart_def)



text \<open>
  Claim C7 at its failing input: \<^verbatim>\<open>POST /api/cart/add\<close> with quantity 0, or \<open>-3\<close>, for an
  active product in stock stores a cart line with that quantity. The update route refuses
  a negative quantity and removes the line at 0; the add route checks neither.
\<close>

theorem cart_add_nonpositive_quantity:
  "stored_cart (cache (snd (cart_add (demo_shop 5) ''u'' ''p1'' (Some 0)))) ''u''
     = Some [\<lparr>product = ''p1'', quantity = 0\<rparr>] \<and>
   stored_cart (cache (snd (cart_add (demo_shop 5) ''u'' ''p1'' (Some (- 3))))) ''u''
     = Some [\<lparr>product = ''p1'', quantity = - 3\<rparr>]"
  by (simp add: cart_add_first stored_save_cart demo_cache)

section \<open>Updating a cart line\<close>

lemma cart_update_outcome:
  assumes "pid \<noteq> []" "0 \<le> q"
  shows "cart_update s u pid (Some q) =
           (case products s pid of
              None \<Rightarrow> (Inl NotFound, s)
            | Some p \<Rightarrow>
                if \<not> isActive p then (Inl NotFound, s)
                else case stored_cart (cache s) u of
                       None \<Rightarrow> (Inl NotFound, s)
                     | Some c \<Rightarrow>
                         (case map_of (cart_lines c) pid of
                            None \<Rightarrow> (Inl NotFound, s)
                          | Some n \<Rightarrow>
                              if q = 0
                              then save_cart s u (lines_cart (remove1 (pid, n) (cart_lines c)))
                              else if stock p < q then (Inl InsufficientStock, s)
                              else save_cart s u (lines_cart (AList.update pid q (cart_lines c)))))"
proof (cases "products s pid")
  case None
  with assms show ?thesis by (simp add: cart_update_def)
next
  case p: (Some p)
  show ?thesis
  proof (cases "stored_cart (cache s) u")
    case None
    with assms p show ?thesis by (simp add: cart_update_def stored_cart_def)
  next
    case c: (Some c)
    show ?thesis
    proof (cases "findIndex (\<lambda>item. product item = pid) c")
      case None
      with assms p c line_quantity_None [OF None] show ?thesis
        by (simp add: cart_update_def stored_cart_def)
    next
      case (Some i)
      have "lines_cart (remove1 (pid, quantity (c ! i)) (cart_lines c)) = splice1 i c"
        using cart_lines_splice [OF Some] lines_cart_cart_lines by metis
      moreover have "lines_cart (AList.update pid q (cart_lines c)) = c[i := (c ! i)\<lparr>quantity := q\<rparr>]"
        using cart_lines_update [OF Some, of q] lines_cart_cart_lines by metis
      ultimately show ?thesis
        using assms p c Some line_quantity_Some [OF Some]
        by (simp add: cart_update_def stored_cart_def)
    qed
  qed
qed

lemma stored_cart_Ready: "stored_cart r u = Some c \<Longrightarrow> link r = Ready"
  using stored_cart_down [of r u] by auto

text \<open>
  Claim C8, as amended. For every user, product id (not empty) and quantity \<open>q \<ge> 0\<close>:
  \<^verbatim>\<open>updateItem\<close> fails with NotFound exactly when the product is missing or inactive, or
  no cart is stored, or the cart has no line for the product. Otherwise, with \<open>n\<close> the
  line's quantity: \<open>q = 0\<close> removes the line; \<open>q > 0\<close> above the stock fails with
  InsufficientStock, the state unchanged; any other \<open>q > 0\<close> sets the line's quantity to
  exactly \<open>q\<close>, whatever \<open>n\<close> was.
\<close>

theorem cart_update_spec:
  assumes "productId \<noteq> []" and "0 \<le> q"
  shows
    "(fst (cart_update s userId productId (Some q)) = Inl NotFound \<longleftrightarrow>
        products s productId = None \<or> (\<exists>p. products s productId = Some p \<and> \<not> isActive p) \<or>
        stored_cart (cache s) userId = None \<or>
        (\<exists>c. stored_cart (cache s) userId = Some c \<and> map_of (cart_lines c) productId = None)) \<and>
     (\<forall>p c n. products s productId = Some p \<and> isActive p \<and>
          stored_cart (cache s) userId = Some c \<and> map_of (cart_lines c) productId = Some n \<longrightarrow>
        (q = 0 \<longrightarrow>
           fst (cart_update s userId productId (Some q)) =
             Inr (itemCount (lines_cart (remove1 (productId, n) (cart_lines c)))) \<and>
           stored_cart (cache (snd (cart_update s userId productId (Some q)))) userId =
             Some (lines_cart (remove1 (productId, n) (cart_lines c)))) \<and>
        (0 < q \<and> stock p < q \<longrightarrow>
           cart_update s userId productId (Some q) = (Inl InsufficientStock, s)) \<and>
        (0 < q \<and> q \<le> stock p \<longrightarrow>
           fst (cart_update s userId productId (Some q)) =
             Inr (itemCount (lines_cart (AList.update productId q (cart_lines c)))) \<and>
           stored_cart (cache (snd (cart_update s userId productId (Some q)))) userId =
             Some (lines_cart (AList.update productId q (cart_lines c))) \<and>
           map_of (AList.update productId q (cart_lines c)) productId = Some q))"
proof (intro conjI allI impI)
  show "fst (cart_update s userId productId (Some q)) = Inl NotFound \<longleftrightarrow>
        products s productId = None \<or> (\<exists>p. products s productId = Some p \<and> \<not> isActive p) \<or>
        stored_cart (cache s) userId = None \<or>
        (\<exists>c. stored_cart (cache s) userId = Some c \<and> map_of (cart_lines c) productId = None)"
    using assms
    by (auto simp: cart_update_outcome fst_save_cart split: option.splits)
next
  fix p c n
  assume a: "products s productId = Some p \<and> isActive p \<and>
          stored_cart (cache s) userId = Some c \<and> map_of (cart_lines c) productId = Some n"
  then have ready: "link (cache s) = Ready" by (auto dest: stored_cart_Ready)
  {
    assume "q = 0"
    with a assms ready
    show "fst (cart_update s userId productId (Some q)) =
             Inr (itemCount (lines_cart (remove1 (productId, n) (cart_lines c))))"
      and "stored_cart (cache (snd (cart_update s userId productId (Some q)))) userId =
             Some (lines_cart (remove1 (productId, n) (cart_lines c)))"
      by (simp_all add: cart_update_outcome fst_save_cart stored_save_cart)
  }
  {
    assume "0 < q \<and> stock p < q"
    with a assms show "cart_update s userId productId (Some q) = (Inl InsufficientStock, s)"
      by (simp add: cart_update_outcome)
  }
  {
    assume "0 < q \<and> q \<le> stock p"
    with a assms ready
    show "fst (cart_update s userId productId (Some q)) =
             Inr (itemCount (lines_cart (AList.update productId q (cart_lines c))))"
      and "stored_cart (cache (snd (cart_update s userId productId (Some q)))) userId =
             Some (lines_cart (AList.update productId q (cart_lines c)))"
      by (simp_all add: cart_update_outcome fst_save_cart stored_save_cart)
    show "map_of (AList.update productId q (cart_lines c)) productId = Some q"
      by (simp add: update_conv')
  }
qed

lemma shop_with_cart_simps:
  "stored_cart (cache (shop_with_cart c)) ''u'' = Some c"
  "products (shop_with_cart c) = products (demo_shop 5)"
  by (simp_all add: shop_with_cart_def stored_cart_setCart demo_cache)

text \<open>
  A cart with one piece of \<open>p2\<close> and two of \<open>p1\<close> (stock 5): setting \<open>p1\<close> to 4 stores a
  line of 4, setting it to 0 leaves \<open>p2\<close> alone, setting it to 6 fails with
  InsufficientStock; a cart without a line for \<open>p1\<close> gives NotFound.
\<close>

theorem cart_update_spec_witness:
  "stored_cart (cache (snd (cart_update
       (shop_with_cart [\<lparr>product = ''p2'', quantity = 1\<rparr>, \<lparr>product = ''p1'', quantity = 2\<rparr>])
       ''u'' ''p1'' (Some 4)))) ''u''
     = Some [\<lparr>product = ''p2'', quantity = 1\<rparr>, \<lparr>product = ''p1'', quantity = 4\<rparr>] \<and>
   stored_cart (cache (snd (cart_update
       (shop_with_cart [\<lparr>product = ''p2'', quantity = 1\<rparr>, \<lparr>product = ''p1'', quantity = 2\<rparr>])
       ''u'' ''p1'' (Some 0)))) ''u''
     = Some [\<lparr>product = ''p2'', quantity = 1\<rparr>] \<and>
   fst (cart_update
       (shop_with_cart [\<lparr>product = ''p2'', quantity = 1\<rparr>, \<lparr>product = ''p1'', quantity = 2\<rparr>])
       ''u'' ''p1'' (Some 6)) = Inl InsufficientStock \<and>
   fst (cart_update (shop_with_cart [\<lparr>product = ''p2'', quantity = 1\<rparr>]) ''u'' ''p1'' (Some 1))
     = Inl NotFound"
proof -
  define s1 where "s1 = shop_with_cart [\<lparr>product = ''p2'', quantity = 1\<rparr>, \<lparr>product = ''p1'', quantity = 2\<rparr>]"
  define s2 where "s2 = shop_with_cart [\<lparr>product = ''p2'', quantity = 1\<rparr>]"
  have st: "stored_cart (cache s1) ''u'' = Some [\<lparr>product = ''p2'', quantity = 1\<rparr>, \<lparr>product = ''p1'', quantity = 2\<rparr>]"
    "products s1 ''p1'' = Some \<lparr>name = ''tea'', price = 10, stock = 5, isActive = True, images = []\<rparr>"
    "stored_cart (cache s2) ''u'' = Some [\<lparr>product = ''p2'', quantity = 1\<rparr>]"
    "products s2 ''p1'' = Some \<lparr>name = ''tea'', price = 10, stock = 5, isActive = True, images = []\<rparr>"
    by (simp_all add: s1_def s2_def shop_with_cart_simps demo_products)
  have a: "stored_cart (cache (snd (cart_update s1 ''u'' ''p1'' (Some 4)))) ''u''
     = Some [\<lparr>product = ''p2'', quantity = 1\<rparr>, \<lparr>product = ''p1'', quantity = 4\<rparr>]"
    using cart_update_spec [of "''p1''" 4 s1 "''u''"] st
    by (simp add: cart_lines_def lines_cart_def)
  have b: "stored_cart (cache (snd (cart_update s1 ''u'' ''p1'' (Some 0)))) ''u''
     = Some [\<lparr>product = ''p2'', quantity = 1\<rparr>]"
    using cart_update_spec [of "''p1''" 0 s1 "''u''"] st
    by (simp add: cart_lines_def lines_cart_def)
  have c: "fst (cart_update s1 ''u'' ''p1'' (Some 6)) = Inl InsufficientStock"
    using cart_update_spec [of "''p1''" 6 s1 "''u''"] st
    by (simp add: cart_lines_def lines_cart_def)
  have d: "fst (cart_update s2 ''u'' ''p1'' (Some 1)) = Inl NotFound"
    using cart_update_spec [of "''p1''" 1 s2 "''u''"] st
    by (simp add: cart_lines_def lines_cart_def)
  from a b c d show ?thesis by (simp add: s1_def s2_def)
qed

text \<open>
  Claim C8 as stated fails for a product that has become inactive: the cart exists and
  holds a line for it, and the request to set the quantity to 0 fails with NotFound and
  removes nothing. And a negative quantity is refused as a bad request before anything is
  looked up, also where no cart exists.
\<close>

theorem cart_update_inactive_product:
  "stored_cart (cache (shop_with_cart [\<lparr>product = ''p3'', quantity = 1\<rparr>])) ''u''
     = Some [\<lparr>product = ''p3'', quantity = 1\<rparr>] \<and>
   map_of (cart_lines [\<lparr>product = ''p3'', quantity = 1\<rparr>]) ''p3'' = Some 1 \<and>
   cart_update (shop_with_cart [\<lparr>product = ''p3'', quantity = 1\<rparr>]) ''u'' ''p3'' (Some 0)
     = (Inl NotFound, shop_with_cart [\<lparr>product = ''p3'', quantity = 1\<rparr>]) \<and>
   stored_cart (cache (demo_shop 5)) ''u'' = None \<and>
   cart_update (demo_shop 5) ''u'' ''p1'' (Some (- 1)) = (Inl BadRequest, demo_shop 5)"
  by (simp add: cart_update_outcome shop_with_cart_simps demo_products cart_lines_def demo_cache
      cart_update_def)

section \<open>The cart view\<close>











section \<open>The products of a cart stay distinct\<close>

lemma product_lines_cart: "map product (lines_cart kvs) = map fst kvs"
  by (simp add: lines_cart_def comp_def)

lemma keys_cart_lines: "map fst (cart_lines c) = map product c"
  by (simp add: cart_lines_def comp_def)

lemma distinct_keys_remove1: "distinct (map fst al) \<Longrightarrow> distinct (map fst (remove1 x al))"
proof (induction al)
  case Nil
  then show ?case by simp
next
  case (Cons a al)
  have "set (remove1 x al) \<subseteq> set al" by (rule set_remove1_subset)
  with Cons show ?case by auto
qed

lemma cart_add_default: "cart_add s u pid None = cart_add s u pid (Some 1)"
  by (simp add: cart_add_def)

lemma unique_after_save:
  assumes "distinct (map fst kvs)" and "unique_products s u"
  shows "unique_products (snd (save_cart s u (lines_cart kvs))) u"
proof (cases "link (cache s) = Ready")
  case True
  with assms(1) show ?thesis
    by (simp add: unique_products_def stored_save_cart product_lines_cart)
next
  case False
  with assms(2) show ?thesis by (simp add: stored_save_cart_down)
qed

lemma unique_cart_or_empty:
  "unique_products s u \<Longrightarrow> distinct (map fst (cart_lines (cart_or_empty (cache s) u)))"
  by (cases "stored_cart (cache s) u")
    (simp_all add: unique_products_def cart_or_empty_def keys_cart_lines)

lemma unique_stored:
  "unique_products s u \<Longrightarrow> stored_cart (cache s) u = Some c \<Longrightarrow> distinct (map fst (cart_lines c))"
  by (simp add: unique_products_def keys_cart_lines)

lemma cart_add_unique:
  assumes "unique_products s u"
  shows "unique_products (snd (cart_add s u pid qo)) u"
proof -
  have some: "unique_products (snd (cart_add s u pid (Some q))) u" for q
  proof (cases "pid = []")
    case True
    with assms show ?thesis by (simp add: cart_add_def)
  next
    case False
    show ?thesis
      using assms unique_cart_or_empty [OF assms]
      by (auto simp: cart_add_outcome [OF False] distinct_update split: option.splits
          intro!: unique_after_save)
  qed
  show ?thesis
    by (cases qo) (simp_all add: cart_add_default some)
qed

lemma cart_update_unique:
  assumes "unique_products s u"
  shows "unique_products (snd (cart_update s u pid qo)) u"
proof (cases qo)
  case None
  with assms show ?thesis by (simp add: cart_update_def)
next
  case (Some q)
  show ?thesis
  proof (cases "pid = [] \<or> q < 0")
    case True
    with assms Some show ?thesis by (auto simp: cart_update_def)
  next
    case False
    then have ok: "pid \<noteq> []" "0 \<le> q" by simp_all
    show ?thesis
      using assms
      by (auto simp: Some cart_update_outcome [OF ok] distinct_update distinct_keys_remove1
          split: option.splits dest: unique_stored intro!: unique_after_save)
  qed
qed

lemma cart_remove_outcome:
  "cart_remove s u pid =
     (case stored_cart (cache s) u of
        None \<Rightarrow> (Inl NotFound, s)
      | Some c \<Rightarrow>
          (case map_of (cart_lines c) pid of
             None \<Rightarrow> (Inl NotFound, s)
           | Some n \<Rightarrow> save_cart s u (lines_cart (remove1 (pid, n) (cart_lines c)))))"
proof (cases "stored_cart (cache s) u")
  case None
  then show ?thesis by (simp add: cart_remove_def stored_cart_def)
next
  case c: (Some c)
  show ?thesis
  proof (cases "findIndex (\<lambda>item. product item = pid) c")
    case None
    with c line_quantity_None [OF None] show ?thesis
      by (simp add: cart_remove_def stored_cart_def)
  next
    case (Some i)
    have "lines_cart (remove1 (pid, quantity (c ! i)) (cart_lines c)) = splice1 i c"
      using cart_lines_splice [OF Some] lines_cart_cart_lines by metis
    with c Some line_quantity_Some [OF Some] show ?thesis
      by (simp add: cart_remove_def stored_cart_def)
  qed
qed

lemma cart_remove_unique:
  assumes "unique_products s u"
  shows "unique_products (snd (cart_remove s u pid)) u"
  using assms
  by (auto simp: cart_remove_outcome distinct_keys_remove1
      split: option.splits dest: unique_stored intro!: unique_after_save)

lemma cart_clear_unique: "unique_products (snd (cart_clear s u)) u"
  by (simp add: unique_products_def cart_clear_def stored_cart_deleteCart)


text \<open>
  The half of the cart invariant that every route keeps: whatever the requests and their
  parameters, no two lines of the stored cart get the same product. (The other half, a
  positive quantity in every line, does not survive a request to add 0 pieces.)
\<close>

lemma cart_step_unique: "unique_products s u \<Longrightarrow> unique_products (cart_step s u req) u"
  by (cases req) (simp_all add: cart_add_unique cart_update_unique cart_remove_unique cart_clear_unique)

lemma cart_run_unique: "unique_products s u \<Longrightarrow> unique_products (cart_run s u reqs) u"
  unfolding cart_run_def by (induction reqs arbitrary: s) (simp_all add: cart_step_unique)

lemma no_cart_unique: "keyspace (cache s) (''cart:'' @ u) = None \<Longrightarrow> unique_products s u"
  by (simp add: unique_products_def stored_cart_absent)

section \<open>Placing an order\<close>

lemma process_items_Cons:
  "process_items s now u (item # rest) sub acc =
     (case products s (product item) of
        None \<Rightarrow> (Inl NotFound, s)
      | Some p \<Rightarrow>
          if stock p < quantity item then (Inl InsufficientStock, s)
          else process_items (purchase s now u item p) now u rest
                 (sub + price p * of_int (quantity item))
                 (acc @ [snapshot s item]))"
  by (simp add: purchase_def Let_def snapshot_def live_price_def split: option.splits)

lemma purchase_frame:
  "orders (purchase s now u item p) = orders s" "cache (purchase s now u item p) = cache s"
  "products (purchase s now u item p) = (products s)(product item \<mapsto> p\<lparr>stock := stock p - quantity item\<rparr>)"
  by (simp_all add: purchase_def Let_def split: option.splits)



declare process_items.simps(2) [simp del]


lemma process_items_failure:
  "process_items s now u its sub acc = (Inl e, s') \<Longrightarrow>
     (e = NotFound \<or> e = InsufficientStock) \<and> orders s' = orders s \<and> cache s' = cache s"
proof (induction its arbitrary: s sub acc)
  case Nil
  then show ?case by simp
next
  case (Cons item rest)
  show ?case
  proof (cases "products s (product item)")
    case None
    with Cons.prems show ?thesis by (auto simp: process_items_Cons)
  next
    case (Some p)
    show ?thesis
    proof (cases "stock p < quantity item")
      case True
      with Some Cons.prems show ?thesis by (auto simp: process_items_Cons)
    next
      case False
      with Some Cons.prems have "process_items (purchase s now u item p) now u rest
                (sub + price p * of_int (quantity item)) (acc @ [snapshot s item]) = (Inl e, s')"
        by (simp add: process_items_Cons)
      from Cons.IH [OF this] show ?thesis by (simp add: purchase_frame)
    qed
  qed
qed



text \<open>
  An order that fails stores no order and leaves the cache, the cart included, alone. The
  products and the graph are another matter.
\<close>

lemma order_create_failure:
  assumes "fst (order_create s now u its addr meth) = Inl e"
  shows "orders (snd (order_create s now u its addr meth)) = orders s \<and>
         cache (snd (order_create s now u its addr meth)) = cache s"
proof (cases "process_items s now u its 0 []")
  case (Pair res s1)
  show ?thesis
  proof (cases res)
    case (Inl e')
    with Pair process_items_failure [of s now u its 0 "[]" e' s1] show ?thesis
      by (simp add: order_create_def)
  next
    case (Inr r)
    with Pair assms show ?thesis
      by (cases r) (simp add: order_create_def Let_def split: if_splits)
  qed
qed



text \<open>
  Claim C1 at its failing input: an order of two pieces of \<open>p1\<close> and one of a product that
  does not exist fails with NotFound and stores no order, but the stock of \<open>p1\<close> has gone
  from 5 to 3 and the purchase edge for \<open>p1\<close> has been written. The same happens when the
  second line asks for more than the stock: InsufficientStock, and \<open>p1\<close> is left at 3.
\<close>

theorem order_create_partial_failure:
  "fst (order_create (demo_shop 5) 7 ''u''
         [\<lparr>product = ''p1'', quantity = 2\<rparr>, \<lparr>product = ''p9'', quantity = 1\<rparr>] ''1 Main St'' ''card'')
     = Inl NotFound \<and>
   map_option stock (products (snd (order_create (demo_shop 5) 7 ''u''
         [\<lparr>product = ''p1'', quantity = 2\<rparr>, \<lparr>product = ''p9'', quantity = 1\<rparr>] ''1 Main St'' ''card'')) ''p1'')
     = Some 3 \<and>
   edges (neo4j (snd (order_create (demo_shop 5) 7 ''u''
         [\<lparr>product = ''p1'', quantity = 2\<rparr>, \<lparr>product = ''p9'', quantity = 1\<rparr>] ''1 Main St'' ''card'')))
     = [\<lparr>source = ''u'', target = ''p1'', kind = ''PURCHASED'', timestamp = 7\<rparr>] \<and>
   orders (snd (order_create (demo_shop 5) 7 ''u''
         [\<lparr>product = ''p1'', quantity = 2\<rparr>, \<lparr>product = ''p9'', quantity = 1\<rparr>] ''1 Main St'' ''card'')) = [] \<and>
   fst (order_create (demo_shop 5) 7 ''u''
         [\<lparr>product = ''p1'', quantity = 2\<rparr>, \<lparr>product = ''p2'', quantity = 9\<rparr>] ''1 Main St'' ''card'')
     = Inl InsufficientStock \<and>
   map_option stock (products (snd (order_create (demo_shop 5) 7 ''u''
         [\<lparr>product = ''p1'', quantity = 2\<rparr>, \<lparr>product = ''p2'', quantity = 9\<rparr>] ''1 Main St'' ''card'')) ''p1'')
     = Some 3"
  by (simp add: order_create_def process_items.simps(2) demo_shop_def createUserInteraction_def
      Let_def)


lemma order_cancel_outcome:
  assumes "Order_findById s oid = Some ord" "user ord = u"
  shows "order_cancel s now u oid reason =
           (if orderStatus ord \<in> {''shipped'', ''delivered'', ''cancelled''}
            then (Inl InvalidState, s)
            else (Inr (ord\<lparr>orderStatus := ''cancelled'', cancelledAt := Some now,
                          cancellationReason := (case reason of None \<Rightarrow> cancellationReason ord
                             | Some txt \<Rightarrow> if txt = [] then cancellationReason ord else Some txt)\<rparr>),
                  s\<lparr>products := restore_stock (products s) (items ord),
                    orders := (orders s)[oid := ord\<lparr>orderStatus := ''cancelled'', cancelledAt := Some now,
                          cancellationReason := (case reason of None \<Rightarrow> cancellationReason ord
                             | Some txt \<Rightarrow> if txt = [] then cancellationReason ord else Some txt)\<rparr>]\<rparr>))"
  using assms by (auto simp: order_cancel_def Let_def split: option.splits)


section \<open>Cancelling an order, clearing a cart\<close>

lemma shop_with_order_simps:
  "Order_findById (shop_with_order st) 0 = Some (demo_order st)"
  "user (demo_order st) = ''u''" "orderStatus (demo_order st) = st"
  "products (shop_with_order st) = products (demo_shop 5)"
  by (simp_all add: shop_with_order_def Order_findById_def demo_order_def)


lemma cart_clear_absent:
  "keyspace (cache s) (''cart:'' @ u) = None \<Longrightarrow> cart_clear s u = (Inr (), s)"
  by (simp add: cart_clear_def deleteCart_absent)

lemma cart_clear_twice: "cart_clear (snd (cart_clear s u)) u = cart_clear s u"
proof (cases "link (cache s) = Ready")
  case True
  then show ?thesis
    by (simp add: cart_clear_def deleteCart_Ready store_def)
next
  case False
  then show ?thesis by (simp add: cart_clear_def deleteCart_down)
qed

text \<open>
  Claim C3, as amended. Clearing a cart that does not exist succeeds and leaves the state
  unchanged, and clearing twice is the same as clearing once. Cancelling an order that is
  already cancelled is refused with InvalidState and leaves the state unchanged: the order
  keeps its status and timestamps and no stock moves.
\<close>

theorem idempotent_clear_and_cancel:
  "(keyspace (cache s) (''cart:'' @ userId) = None \<longrightarrow> cart_clear s userId = (Inr (), s)) \<and>
   cart_clear (snd (cart_clear s userId)) userId = cart_clear s userId \<and>
   (\<forall>ord. Order_findById s oid = Some ord \<and> user ord = userId \<and> orderStatus ord = ''cancelled'' \<longrightarrow>
      order_cancel s now userId oid reason = (Inl InvalidState, s))"
  by (auto simp: cart_clear_absent cart_clear_twice order_cancel_outcome)

text \<open>
  Clearing where nothing is cached; cancelling, at time 11, the order cancelled at time 9.
\<close>

theorem idempotent_clear_and_cancel_witness:
  "cart_clear (demo_shop 5) ''u'' = (Inr (), demo_shop 5) \<and>
   order_cancel (snd (order_cancel (shop_with_order ''pending'') 9 ''u'' 0 None)) 11 ''u'' 0 None
     = (Inl InvalidState, snd (order_cancel (shop_with_order ''pending'') 9 ''u'' 0 None))"
proof -
  define s1 where "s1 = snd (order_cancel (shop_with_order ''pending'') 9 ''u'' 0 None)"
  have "\<exists>ord. Order_findById s1 0 = Some ord \<and> user ord = ''u'' \<and> orderStatus ord = ''cancelled''"
    by (simp add: s1_def order_cancel_outcome [where ord = "demo_order ''pending''"]
        shop_with_order_simps Order_findById_def shop_with_order_def)
  then have "order_cancel s1 11 ''u'' 0 None = (Inl InvalidState, s1)"
    using idempotent_clear_and_cancel [of s1 "''u''" 0 11 None] by blast
  moreover have "cart_clear (demo_shop 5) ''u'' = (Inr (), demo_shop 5)"
    using idempotent_clear_and_cancel [of "demo_shop 5" "''u''" 0 11 None]
    by (simp add: demo_shop_def fresh_redis_def)
  ultimately show ?thesis by (simp add: s1_def)
qed

text \<open>
  Claim C3 as stated fails for the order: cancelling a cancelled order does not succeed
  without error, it is an InvalidState failure.
\<close>

theorem cancel_cancelled_order_fails:
  "orderStatus (demo_order ''cancelled'') = ''cancelled'' \<and>
   Order_findById (shop_with_order ''cancelled'') 0 = Some (demo_order ''cancelled'') \<and>
   fst (order_cancel (shop_with_order ''cancelled'') 9 ''u'' 0 None) = Inl InvalidState"
  by (simp add: shop_with_order_simps order_cancel_outcome [where ord = "demo_order ''cancelled''"])


end
